theory Spec2Isabelle
  imports Main
begin

section \<open>The binary flight-log parser (BinLogParser.cpp)\<close>

text \<open>
  A shallow embedding of \<^verbatim>\<open>src/ui/LogParser/BinLogParser.cpp\<close>. Bytes are
  \<^typ>\<open>char\<close> (8 bits), a QByteArray and a QString are \<^typ>\<open>string\<close>, member
  variables are fields of a record that every method takes and returns, and a read outside
  a container (\<^verbatim>\<open>at\<close>, \<^verbatim>\<open>operator[]\<close>) is the value \<open>None\<close>.
  A QString is built from bytes one character per byte: the UTF-8 decoding that Qt applies
  to bytes above 0x7F is library code and is not modelled.
\<close>

subsection \<open>Wire constants\<close>

text \<open>Modelled from the spec: the class declaration (BinLogParser.h) is not among the
  sources; section 6 of the specification gives the first start byte as 0xA3.\<close>
definition s_StartByte1 :: char where
  "s_StartByte1 = CHR 0xA3"

text \<open>Modelled from the spec: the second start byte is 0x95 (section 6).\<close>
definition s_StartByte2 :: char where
  "s_StartByte2 = CHR 0x95"

text \<open>Modelled from the spec: the message type of an FMT record is 0x80 (section 6).\<close>
definition s_FMTMessageType :: char where
  "s_FMTMessageType = CHR 0x80"

text \<open>Modelled from the spec: the header is 3 bytes long (section 6); this is the offset
  that the decoders subtract from a record's length.\<close>
definition s_HeaderOffset :: int where
  "s_HeaderOffset = 3"

text \<open>Modelled from the spec: the name field of an FMT body has 4 bytes (section 6).\<close>
definition s_FMTNameSize :: nat where
  "s_FMTNameSize = 4"

text \<open>Modelled from the spec: the format field of an FMT body has 16 bytes (section 6).\<close>
definition s_FMTFormatSize :: nat where
  "s_FMTFormatSize = 16"

text \<open>Modelled from the spec: the labels field of an FMT body has 64 bytes (section 6).\<close>
definition s_FMTLabelsSize :: nat where
  "s_FMTLabelsSize = 64"

subsection \<open>Values, descriptors and timestamps\<close>

text \<open>
  A QVariant as the decoder builds it: signed and unsigned integers, the raw bits of a
  single-precision float, a scaled value \<open>raw / divisor\<close> and a string.
\<close>
datatype qvariant =
    VInt int
  | VUInt nat
  | VFloat nat
  | VScaled int nat
  | VString string

type_synonym NameValuePair = "string \<times> qvariant"

text \<open>
  The declarations that the sources use and do not contain, taken as parameters:
  \<^verbatim>\<open>s_MinHeaderSize\<close>, \<^verbatim>\<open>s_STRTMessageType\<close>, and what
  \<^verbatim>\<open>QVariant::toULongLong\<close> returns for a value that is not an integer.
\<close>
record decls =
  s_MinHeaderSize :: nat
  s_STRTMessageType :: char
  toULongLong_other :: "qvariant \<Rightarrow> nat"

definition toULongLong :: "decls \<Rightarrow> qvariant \<Rightarrow> nat" where
  "toULongLong K v =
     (case v of
        VInt i \<Rightarrow> nat (i mod 2 ^ 64)
      | VUInt n \<Rightarrow> n
      | _ \<Rightarrow> toULongLong_other K v)"

record timeStampType =
  ts_name :: string
  ts_divisor :: nat

text \<open>Modelled from the spec: \<^verbatim>\<open>timeStampType\<close> is declared in BinLogParser.h. The
  specification has the active timestamp absent until it is discovered; absent is the
  default value with the empty name, and \<^verbatim>\<open>valid()\<close> tests the name.\<close>
definition ts_valid :: "timeStampType \<Rightarrow> bool" where
  "ts_valid t = (ts_name t \<noteq> [])"

record typeDescriptor =
  m_ID :: char
  m_length :: int
  m_name :: string
  m_format :: string
  m_labels :: "string list"
  m_hasTimeStamp :: bool
  m_timeStampIndex :: nat

text \<open>The constructor \<^verbatim>\<open>typeDescriptor::typeDescriptor()\<close>.\<close>
definition typeDescriptor_init :: typeDescriptor where
  "typeDescriptor_init =
     \<lparr>m_ID = CHR 0xFF, m_length = 0, m_name = [], m_format = [], m_labels = [],
      m_hasTimeStamp = False, m_timeStampIndex = 0\<rparr>"

text \<open>\<^verbatim>\<open>QList::indexOf\<close>: the first position of an element, \<open>None\<close> for -1.\<close>
fun indexOf :: "'a list \<Rightarrow> 'a \<Rightarrow> nat option" where
  "indexOf [] x = None"
| "indexOf (y # ys) x = (if y = x then Some 0 else map_option Suc (indexOf ys x))"

definition finalize :: "timeStampType \<Rightarrow> typeDescriptor \<Rightarrow> typeDescriptor" where
  "finalize timeStamp d =
     (case indexOf (m_labels d) (ts_name timeStamp) of
        Some tempIndex \<Rightarrow> d\<lparr>m_hasTimeStamp := True, m_timeStampIndex := tempIndex\<rparr>
      | None \<Rightarrow> d)"

definition addTimeStampField :: "timeStampType \<Rightarrow> typeDescriptor \<Rightarrow> typeDescriptor" where
  "addTimeStampField timeStamp d =
     d\<lparr>m_labels := ts_name timeStamp # m_labels d,
       m_format := CHR ''Q'' # m_format d,
       m_length := m_length d + 8,
       m_hasTimeStamp := True,
       m_timeStampIndex := 0\<rparr>"

definition replaceLabelName :: "string \<Rightarrow> string \<Rightarrow> typeDescriptor \<Rightarrow> typeDescriptor" where
  "replaceLabelName oldName newName d =
     (case indexOf (m_labels d) oldName of
        Some tempIndex \<Rightarrow> d\<lparr>m_labels := (m_labels d)[tempIndex := newName]\<rparr>
      | None \<Rightarrow> d)"

definition getLabelAtIndex :: "typeDescriptor \<Rightarrow> nat \<Rightarrow> string" where
  "getLabelAtIndex d index =
     (if index < length (m_labels d) then m_labels d ! index else ''NoLabel'')"

definition hasNoTimestamp :: "typeDescriptor \<Rightarrow> bool" where
  "hasNoTimestamp d = (\<not> m_hasTimeStamp d)"

definition isValid :: "decls \<Rightarrow> typeDescriptor \<Rightarrow> bool" where
  "isValid K d =
     (if m_ID d = s_FMTMessageType then
        m_ID d \<noteq> CHR 0xFF \<and> m_length d > 0 \<and> length (m_name d) > 0 \<and>
        length (m_format d) > 0 \<and> length (m_labels d) > 0
      else if m_ID d = s_STRTMessageType K then
        m_ID d \<noteq> CHR 0xFF \<and> m_length d > 0 \<and> length (m_name d) > 0 \<and>
        length (m_format d) = length (m_labels d)
      else
        m_ID d \<noteq> CHR 0xFF \<and> m_length d > 0 \<and> length (m_name d) > 0 \<and>
        length (m_format d) > 0 \<and> length (m_format d) = length (m_labels d))"

subsection \<open>Status, sink and callback\<close>

datatype MAV_TYPE =
    MAV_TYPE_GENERIC
  | MAV_TYPE_QUADROTOR
  | MAV_TYPE_FIXED_WING
  | MAV_TYPE_GROUND_ROVER

text \<open>
  The diagnostics that the parser hands to the status object, by their contents; the
  source formats each of them into a message text.
\<close>
datatype message =
    CorruptElement string
  | UnknownDataType char string
  | NoValues
  | NoDescriptor char
  | DoubledEntry string
  | CorruptOrMissing string char
  | TimeNotIncreasing nat nat

text \<open>Modelled from the spec: \<^verbatim>\<open>AP2DataPlotStatus\<close> is not among the sources. Section 6
  has it accumulate the valid rows, the corrupt-FMT, corrupt-data and corrupt-time
  incidents (with the message counter and the message), the count of non-message bytes
  and the vehicle kind.\<close>
record AP2DataPlotStatus =
  validData :: nat
  corruptFMT :: "(nat \<times> message) list"
  corruptData :: "(nat \<times> message) list"
  corruptTime :: "(nat \<times> message) list"
  noMessageBytesFound :: nat
  mavType :: MAV_TYPE

definition validDataRead :: "AP2DataPlotStatus \<Rightarrow> AP2DataPlotStatus" where
  "validDataRead st = st\<lparr>validData := validData st + 1\<rparr>"

definition corruptDataRead :: "nat \<Rightarrow> message \<Rightarrow> AP2DataPlotStatus \<Rightarrow> AP2DataPlotStatus" where
  "corruptDataRead index msg st = st\<lparr>corruptData := corruptData st @ [(index, msg)]\<rparr>"

definition corruptFMTRead :: "nat \<Rightarrow> message \<Rightarrow> AP2DataPlotStatus \<Rightarrow> AP2DataPlotStatus" where
  "corruptFMTRead index msg st = st\<lparr>corruptFMT := corruptFMT st @ [(index, msg)]\<rparr>"

definition corruptTimeRead :: "nat \<Rightarrow> message \<Rightarrow> AP2DataPlotStatus \<Rightarrow> AP2DataPlotStatus" where
  "corruptTimeRead index msg st = st\<lparr>corruptTime := corruptTime st @ [(index, msg)]\<rparr>"

definition setNoMessageBytes :: "nat \<Rightarrow> AP2DataPlotStatus \<Rightarrow> AP2DataPlotStatus" where
  "setNoMessageBytes n st = st\<lparr>noMessageBytesFound := n\<rparr>"

definition setMavType :: "MAV_TYPE \<Rightarrow> AP2DataPlotStatus \<Rightarrow> AP2DataPlotStatus" where
  "setMavType t st = st\<lparr>mavType := t\<rparr>"

type_synonym sinkType = "string \<times> char \<times> int \<times> string \<times> string list"
type_synonym sinkRow = "string \<times> NameValuePair list \<times> string"

text \<open>Modelled from the spec: the sink \<^verbatim>\<open>AP2DataPlot2DModel\<close> is not among the sources;
  section 6 gives its operations. The sink keeps what it was given, in order. Whether a
  call succeeds is the sink's own business: \<open>answers\<close> lists the results of its next
  calls, and a call beyond the list succeeds. A call that fails stores nothing.\<close>
record AP2DataPlot2DModel =
  addedTypes :: "sinkType list"
  addedRows :: "sinkRow list"
  answers :: "bool list"
  transactionsStarted :: nat
  transactionsEnded :: nat
  allRowsHaveTime :: "(bool \<times> string \<times> nat) option"

definition sinkAnswer :: "AP2DataPlot2DModel \<Rightarrow> bool \<times> AP2DataPlot2DModel" where
  "sinkAnswer m = (case answers m of [] \<Rightarrow> (True, m) | a # as \<Rightarrow> (a, m\<lparr>answers := as\<rparr>))"

definition startTransaction :: "AP2DataPlot2DModel \<Rightarrow> bool \<times> AP2DataPlot2DModel" where
  "startTransaction m =
     (case sinkAnswer m of
        (True, m') \<Rightarrow> (True, m'\<lparr>transactionsStarted := transactionsStarted m' + 1\<rparr>)
      | (False, m') \<Rightarrow> (False, m'))"

definition endTransaction :: "AP2DataPlot2DModel \<Rightarrow> bool \<times> AP2DataPlot2DModel" where
  "endTransaction m =
     (case sinkAnswer m of
        (True, m') \<Rightarrow> (True, m'\<lparr>transactionsEnded := transactionsEnded m' + 1\<rparr>)
      | (False, m') \<Rightarrow> (False, m'))"

definition addType :: "sinkType \<Rightarrow> AP2DataPlot2DModel \<Rightarrow> bool \<times> AP2DataPlot2DModel" where
  "addType t m =
     (case sinkAnswer m of
        (True, m') \<Rightarrow> (True, m'\<lparr>addedTypes := addedTypes m' @ [t]\<rparr>)
      | (False, m') \<Rightarrow> (False, m'))"

definition addRow :: "sinkRow \<Rightarrow> AP2DataPlot2DModel \<Rightarrow> bool \<times> AP2DataPlot2DModel" where
  "addRow r m =
     (case sinkAnswer m of
        (True, m') \<Rightarrow> (True, m'\<lparr>addedRows := addedRows m' @ [r]\<rparr>)
      | (False, m') \<Rightarrow> (False, m'))"

definition setAllRowsHaveTime ::
  "bool \<Rightarrow> string \<Rightarrow> nat \<Rightarrow> AP2DataPlot2DModel \<Rightarrow> AP2DataPlot2DModel" where
  "setAllRowsHaveTime flag name divisor m = m\<lparr>allRowsHaveTime := Some (flag, name, divisor)\<rparr>"

text \<open>Modelled from the spec: the callback \<^verbatim>\<open>IParserCallback\<close> is not among the sources;
  it records the progress reports and counts the errors it was told.\<close>
record IParserCallback =
  progressReports :: "(nat \<times> nat) list"
  errorReports :: nat

definition onProgress :: "nat \<Rightarrow> nat \<Rightarrow> IParserCallback \<Rightarrow> IParserCallback" where
  "onProgress p n c = c\<lparr>progressReports := progressReports c @ [(p, n)]\<rparr>"

definition onError :: "IParserCallback \<Rightarrow> IParserCallback" where
  "onError c = c\<lparr>errorReports := errorReports c + 1\<rparr>"

subsection \<open>The parser object\<close>

text \<open>
  The members of \<^verbatim>\<open>BinLogParser\<close>, and with them the two variables of
  \<^verbatim>\<open>parse\<close> that live as long as its loops: the unread rest of the log file (with the
  file's size) and the counter \<^verbatim>\<open>noMessageBytes\<close>. The two pointer members are held by
  value, with a flag each for the null pointer. The flag \<^verbatim>\<open>m_stop\<close> is set from
  outside by \<^verbatim>\<open>stopParsing\<close>; no method of the parser writes it.
\<close>
record BinLogParser =
  m_callbackObject :: IParserCallback
  callbackIsNull :: bool
  m_dataModel :: AP2DataPlot2DModel
  dataModelIsNull :: bool
  m_dataBlock :: string
  m_dataPos :: nat
  m_messageType :: char
  m_MessageCounter :: nat
  m_stop :: bool
  m_loadedLogType :: MAV_TYPE
  m_timeErrorCount :: nat
  m_lastValidTimeStamp :: nat
  m_logLoadingState :: AP2DataPlotStatus
  m_activeTimestamp :: timeStampType
  m_possibleTimestamps :: "timeStampType list"
  m_typeToDescriptorMap :: "char \<rightharpoonup> typeDescriptor"
  m_descriptorForDeferredStorage :: "typeDescriptor list"
  logfile :: string
  logfileSize :: nat
  noMessageBytes :: nat

text \<open>The constructor, for a sink, a callback and a file to read.\<close>
definition BinLogParser_init ::
  "AP2DataPlot2DModel \<Rightarrow> IParserCallback \<Rightarrow> string \<Rightarrow> BinLogParser" where
  "BinLogParser_init model object file =
     \<lparr>m_callbackObject = object, callbackIsNull = False,
      m_dataModel = model, dataModelIsNull = False,
      m_dataBlock = [], m_dataPos = 0, m_messageType = CHR 0x00, m_MessageCounter = 0,
      m_stop = False, m_loadedLogType = MAV_TYPE_GENERIC, m_timeErrorCount = 0,
      m_lastValidTimeStamp = 0,
      m_logLoadingState = \<lparr>validData = 0, corruptFMT = [], corruptData = [],
        corruptTime = [], noMessageBytesFound = 0, mavType = MAV_TYPE_GENERIC\<rparr>,
      m_activeTimestamp = \<lparr>ts_name = [], ts_divisor = 0\<rparr>,
      m_possibleTimestamps =
        [\<lparr>ts_name = ''TimeUS'', ts_divisor = 1000000\<rparr>,
         \<lparr>ts_name = ''TimeMS'', ts_divisor = 1000\<rparr>],
      m_typeToDescriptorMap = Map.empty,
      m_descriptorForDeferredStorage = [],
      logfile = file, logfileSize = length file, noMessageBytes = 0\<rparr>"

subsection \<open>Byte arrays and the data stream\<close>

text \<open>\<^verbatim>\<open>QByteArray::at\<close>: defined inside the array only.\<close>
definition byteAt :: "string \<Rightarrow> nat \<Rightarrow> char option" where
  "byteAt b i = (if i < length b then Some (b ! i) else None)"

text \<open>\<^verbatim>\<open>QByteArray::mid(pos, len)\<close>: a negative length takes all that follows.\<close>
definition mid :: "string \<Rightarrow> nat \<Rightarrow> int \<Rightarrow> string" where
  "mid b pos len = (if len < 0 then drop pos b else take (nat len) (drop pos b))"

text \<open>\<^verbatim>\<open>QByteArray::remove(0, len)\<close>: nothing is removed when \<open>len\<close> is not positive.\<close>
definition remove0 :: "string \<Rightarrow> int \<Rightarrow> string" where
  "remove0 b len = drop (nat len) b"

text \<open>A QString made from a QByteArray ends before the first zero byte.\<close>
definition toQString :: "string \<Rightarrow> string" where
  "toQString b = takeWhile (\<lambda>c. c \<noteq> CHR 0x00) b"

text \<open>\<^verbatim>\<open>QString::split(",")\<close>, which keeps empty parts.\<close>
fun split_comma :: "string \<Rightarrow> string list" where
  "split_comma [] = [[]]"
| "split_comma (c # cs) =
     (if c = CHR '','' then [] # split_comma cs
      else (case split_comma cs of
              w # ws \<Rightarrow> (c # w) # ws
            | [] \<Rightarrow> [[c]]))"

fun le_nat :: "string \<Rightarrow> nat" where
  "le_nat [] = 0"
| "le_nat (c # cs) = of_char c + 256 * le_nat cs"

definition le_int :: "string \<Rightarrow> int" where
  "le_int bs =
     (let u = int (le_nat bs); m = 2 ^ (8 * length bs)
      in if m \<le> 2 * u then u - m else u)"

text \<open>
  Reading \<open>n\<close> bytes from a little-endian \<^verbatim>\<open>QDataStream\<close>: a read beyond the end of the
  data gives 0 and leaves the stream at its end.
\<close>
definition readUnsigned :: "nat \<Rightarrow> string \<Rightarrow> nat \<times> string" where
  "readUnsigned n stream =
     (if n \<le> length stream then (le_nat (take n stream), drop n stream) else (0, []))"

definition readSigned :: "nat \<Rightarrow> string \<Rightarrow> int \<times> string" where
  "readSigned n stream =
     (if n \<le> length stream then (le_int (take n stream), drop n stream) else (0, []))"

text \<open>The loops of the codes n, N and Z: \<open>j\<close> single bytes, of which the zero bytes are
  left out of the string.\<close>
fun readChars :: "nat \<Rightarrow> string \<Rightarrow> string \<Rightarrow> string \<times> string" where
  "readChars 0 stream val = (val, stream)"
| "readChars (Suc j) stream val =
     (case readUnsigned 1 stream of
        (ch, stream') \<Rightarrow>
          readChars j stream' (if ch \<noteq> 0 then val @ [char_of ch] else val))"

text \<open>\<^verbatim>\<open>val != val\<close> on a single-precision float, read off its bits: the exponent is
  all ones and the fraction is not zero.\<close>
definition isNaN :: "nat \<Rightarrow> bool" where
  "isNaN bits = ((bits div 2 ^ 23) mod 2 ^ 8 = 255 \<and> bits mod 2 ^ 23 \<noteq> 0)"

subsection \<open>The methods of the parser\<close>

definition headerIsValid :: "BinLogParser \<Rightarrow> (bool \<times> BinLogParser) option" where
  "headerIsValid s =
     (case byteAt (m_dataBlock s) (m_dataPos s) of
        None \<Rightarrow> None
      | Some b1 \<Rightarrow>
          if b1 \<noteq> s_StartByte1 then
            Some (False, s\<lparr>m_dataPos := m_dataPos s + 1, m_messageType := CHR 0x00\<rparr>)
          else
            (case byteAt (m_dataBlock s) (m_dataPos s + 1) of
               None \<Rightarrow> None
             | Some b2 \<Rightarrow>
                 if b2 \<noteq> s_StartByte2 then
                   Some (False, s\<lparr>m_dataPos := m_dataPos s + 2, m_messageType := CHR 0x00\<rparr>)
                 else
                   (case byteAt (m_dataBlock s) (m_dataPos s + 2) of
                      None \<Rightarrow> None
                    | Some t \<Rightarrow>
                        Some (True, s\<lparr>m_dataPos := m_dataPos s + 3, m_messageType := t\<rparr>))))"

definition parseFMTMessage ::
  "BinLogParser \<Rightarrow> typeDescriptor \<Rightarrow> (bool \<times> BinLogParser \<times> typeDescriptor) option" where
  "parseFMTMessage s desc =
     (case byteAt (m_dataBlock s) (m_dataPos s) of
        None \<Rightarrow> None
      | Some idByte \<Rightarrow>
          (case byteAt (m_dataBlock s) (m_dataPos s + 1) of
             None \<Rightarrow> None
           | Some lengthByte \<Rightarrow>
               let desc1 = desc\<lparr>m_ID := idByte, m_length := of_char lengthByte\<rparr>;
                   pos = m_dataPos s + 2
               in
                 if int (length (m_dataBlock s)) - int pos < m_length desc1 - s_HeaderOffset - 2
                 then Some (False, s\<lparr>m_dataPos := pos\<rparr>, desc1)
                 else
                   let name = toQString (mid (m_dataBlock s) pos (int s_FMTNameSize));
                       pos1 = pos + s_FMTNameSize;
                       format = toQString (mid (m_dataBlock s) pos1 (int s_FMTFormatSize));
                       pos2 = pos1 + s_FMTFormatSize;
                       tmpStr = toQString (mid (m_dataBlock s) pos2 (int s_FMTLabelsSize));
                       pos3 = pos2 + s_FMTLabelsSize;
                       desc2 = desc1\<lparr>m_name := name, m_format := format,
                                 m_labels := (if length tmpStr > 0 then split_comma tmpStr
                                              else m_labels desc1)\<rparr>
                   in Some (True,
                            s\<lparr>m_dataBlock := remove0 (m_dataBlock s) (int pos3), m_dataPos := 0\<rparr>,
                            desc2)))"

definition storeDescriptor :: "decls \<Rightarrow> BinLogParser \<Rightarrow> typeDescriptor \<Rightarrow> bool \<times> BinLogParser" where
  "storeDescriptor K s desc =
     (if isValid K desc then
        if m_typeToDescriptorMap s (m_ID desc) = None then
          let s1 = s\<lparr>m_typeToDescriptorMap := (m_typeToDescriptorMap s)(m_ID desc \<mapsto> desc)\<rparr>
          in
            if m_ID desc \<noteq> s_FMTMessageType then
              let desc' = (if hasNoTimestamp desc
                           then addTimeStampField (m_activeTimestamp s1) desc else desc)
              in (case addType (m_name desc', m_ID desc', m_length desc', m_format desc',
                                m_labels desc') (m_dataModel s1) of
                    (False, m) \<Rightarrow>
                      (False, s1\<lparr>m_dataModel := snd (endTransaction m),
                                 m_callbackObject := onError (m_callbackObject s1)\<rparr>)
                  | (True, m) \<Rightarrow>
                      (True, s1\<lparr>m_dataModel := m,
                                m_MessageCounter := m_MessageCounter s1 + 1\<rparr>))
            else (True, s1)
        else
          (True, s\<lparr>m_logLoadingState :=
                     corruptFMTRead (m_MessageCounter s) (DoubledEntry (m_name desc))
                       (m_logLoadingState s)\<rparr>)
      else
        (True, s\<lparr>m_logLoadingState :=
                   corruptFMTRead (m_MessageCounter s) (CorruptOrMissing (m_name desc) (m_ID desc))
                     (m_logLoadingState s)\<rparr>))"

text \<open>One field of a data record: the decision ladder over the type code.\<close>
datatype decoded = Field qvariant string | NaNFound | UnknownType

definition decodeField :: "char \<Rightarrow> string \<Rightarrow> decoded" where
  "decodeField typeCode stream =
     (if typeCode = CHR ''b'' then
        (case readSigned 1 stream of (val, r) \<Rightarrow> Field (VInt val) r)
      else if typeCode = CHR ''B'' then
        (case readUnsigned 1 stream of (val, r) \<Rightarrow> Field (VUInt val) r)
      else if typeCode = CHR ''h'' then
        (case readSigned 2 stream of (val, r) \<Rightarrow> Field (VInt val) r)
      else if typeCode = CHR ''H'' then
        (case readUnsigned 2 stream of (val, r) \<Rightarrow> Field (VUInt val) r)
      else if typeCode = CHR ''i'' then
        (case readSigned 4 stream of (val, r) \<Rightarrow> Field (VInt val) r)
      else if typeCode = CHR ''I'' then
        (case readUnsigned 4 stream of (val, r) \<Rightarrow> Field (VUInt val) r)
      else if typeCode = CHR ''f'' then
        (case readUnsigned 4 stream of
           (val, r) \<Rightarrow> if isNaN val then NaNFound else Field (VFloat val) r)
      else if typeCode = CHR ''n'' then
        (case readChars 4 stream [] of (val, r) \<Rightarrow> Field (VString val) r)
      else if typeCode = CHR ''N'' then
        (case readChars 16 stream [] of (val, r) \<Rightarrow> Field (VString val) r)
      else if typeCode = CHR ''Z'' then
        (case readChars 64 stream [] of (val, r) \<Rightarrow> Field (VString val) r)
      else if typeCode = CHR ''c'' then
        (case readSigned 2 stream of (val, r) \<Rightarrow> Field (VScaled val 100) r)
      else if typeCode = CHR ''C'' then
        (case readUnsigned 2 stream of (val, r) \<Rightarrow> Field (VScaled (int val) 100) r)
      else if typeCode = CHR ''e'' then
        (case readSigned 4 stream of (val, r) \<Rightarrow> Field (VScaled val 100) r)
      else if typeCode = CHR ''E'' then
        (case readUnsigned 4 stream of (val, r) \<Rightarrow> Field (VScaled (int val) 100) r)
      else if typeCode = CHR ''L'' then
        (case readSigned 4 stream of (val, r) \<Rightarrow> Field (VScaled val 10000000) r)
      else if typeCode = CHR ''M'' then
        (case readSigned 1 stream of (val, r) \<Rightarrow> Field (VInt val) r)
      else if typeCode = CHR ''q'' then
        (case readSigned 8 stream of (val, r) \<Rightarrow> Field (VInt val) r)
      else if typeCode = CHR ''Q'' then
        (case readUnsigned 8 stream of (val, r) \<Rightarrow> Field (VUInt val) r)
      else UnknownType)"

text \<open>
  The loop of \<^verbatim>\<open>parseDataByDescriptor\<close> over the format string, from field \<open>i\<close> on:
  the list of pairs it leaves, and the diagnostic when it broke off.
\<close>
fun decodeFields ::
  "typeDescriptor \<Rightarrow> string \<Rightarrow> nat \<Rightarrow> string \<Rightarrow> NameValuePair list
     \<Rightarrow> NameValuePair list \<times> message option" where
  "decodeFields desc [] i stream acc = (acc, None)"
| "decodeFields desc (typeCode # rest) i stream acc =
     (case decodeField typeCode stream of
        Field v stream' \<Rightarrow>
          decodeFields desc rest (i + 1) stream' (acc @ [(getLabelAtIndex desc i, v)])
      | NaNFound \<Rightarrow> ([], Some (CorruptElement (m_name desc)))
      | UnknownType \<Rightarrow> ([], Some (UnknownDataType typeCode (m_name desc))))"

definition parseDataByDescriptor ::
  "BinLogParser \<Rightarrow> typeDescriptor \<Rightarrow> bool \<times> BinLogParser \<times> NameValuePair list" where
  "parseDataByDescriptor s desc =
     (if int (length (m_dataBlock s)) - int (m_dataPos s) < m_length desc - s_HeaderOffset
      then (False, s, [])
      else
        let data = mid (m_dataBlock s) (m_dataPos s) (m_length desc - s_HeaderOffset)
        in (case decodeFields desc (m_format desc) 0 data [] of
              (NameValuePairList, incident) \<Rightarrow>
                (True,
                 s\<lparr>m_logLoadingState :=
                     (case incident of
                        None \<Rightarrow> m_logLoadingState s
                      | Some msg \<Rightarrow>
                          corruptDataRead (m_MessageCounter s) msg (m_logLoadingState s)),
                   m_dataBlock :=
                     remove0 (m_dataBlock s) (m_length desc + int (m_dataPos s) - s_HeaderOffset),
                   m_dataPos := 0\<rparr>,
                 NameValuePairList)))"

definition readTimeStamp ::
  "decls \<Rightarrow> BinLogParser \<Rightarrow> NameValuePair list \<Rightarrow> nat
     \<Rightarrow> (BinLogParser \<times> NameValuePair list) option" where
  "readTimeStamp K s valuepairlist timeStampIndex =
     (if timeStampIndex < length valuepairlist then
        let tempVal = toULongLong K (snd (valuepairlist ! timeStampIndex))
        in
          if tempVal \<ge> m_lastValidTimeStamp s then
            Some (s\<lparr>m_lastValidTimeStamp := tempVal\<rparr>, valuepairlist)
          else
            Some (s\<lparr>m_timeErrorCount :=
                      (if m_timeErrorCount s < 50 then m_timeErrorCount s + 1
                       else if m_timeErrorCount s < 51 then m_timeErrorCount s + 1
                       else m_timeErrorCount s),
                    m_logLoadingState :=
                      corruptTimeRead (m_MessageCounter s)
                        (TimeNotIncreasing (m_lastValidTimeStamp s) tempVal)
                        (m_logLoadingState s)\<rparr>,
                  valuepairlist[timeStampIndex :=
                    (fst (valuepairlist ! timeStampIndex), VUInt (m_lastValidTimeStamp s))])
      else None)"

definition storeNameValuePairList ::
  "decls \<Rightarrow> BinLogParser \<Rightarrow> NameValuePair list \<Rightarrow> typeDescriptor
     \<Rightarrow> (bool \<times> BinLogParser \<times> NameValuePair list) option" where
  "storeNameValuePairList K s NameValuePairList desc =
     (case (if hasNoTimestamp desc then
              Some (s, (ts_name (m_activeTimestamp s), VUInt (m_lastValidTimeStamp s))
                       # NameValuePairList)
            else readTimeStamp K s NameValuePairList (m_timeStampIndex desc)) of
        None \<Rightarrow> None
      | Some (s1, list1) \<Rightarrow>
          (case addRow (m_name desc, list1, ts_name (m_activeTimestamp s1)) (m_dataModel s1) of
             (False, m) \<Rightarrow>
               Some (False,
                     s1\<lparr>m_dataModel := snd (endTransaction m),
                        m_callbackObject := onError (m_callbackObject s1)\<rparr>,
                     list1)
           | (True, m) \<Rightarrow>
               Some (True,
                     s1\<lparr>m_dataModel := m,
                        m_MessageCounter := m_MessageCounter s1 + 1,
                        m_logLoadingState := validDataRead (m_logLoadingState s1)\<rparr>,
                     list1)))"

text \<open>The loop of \<^verbatim>\<open>checkForValidTimestamp\<close> over the possible timestamps: the first
  one whose name is among the labels.\<close>
fun firstTimestampIn :: "timeStampType list \<Rightarrow> string list \<Rightarrow> timeStampType option" where
  "firstTimestampIn [] labels = None"
| "firstTimestampIn (timeStamp # rest) labels =
     (if ts_name timeStamp \<in> set labels then Some timeStamp
      else firstTimestampIn rest labels)"

definition checkForValidTimestamp :: "BinLogParser \<Rightarrow> typeDescriptor \<Rightarrow> BinLogParser" where
  "checkForValidTimestamp s desc =
     (let s1 = (case firstTimestampIn (m_possibleTimestamps s) (m_labels desc) of
                  Some timeStamp \<Rightarrow> s\<lparr>m_activeTimestamp := timeStamp\<rparr>
                | None \<Rightarrow> s);
          desc1 = (if ts_valid (m_activeTimestamp s1)
                   then finalize (m_activeTimestamp s1) desc else desc)
      in s1\<lparr>m_descriptorForDeferredStorage := m_descriptorForDeferredStorage s1 @ [desc1]\<rparr>)"

text \<open>The loop of \<^verbatim>\<open>extendedStoreDescriptor\<close> over the deferred descriptors.\<close>
fun storeDeferred ::
  "decls \<Rightarrow> typeDescriptor list \<Rightarrow> bool \<Rightarrow> BinLogParser \<Rightarrow> bool \<times> BinLogParser" where
  "storeDeferred K [] rc s = (rc, s)"
| "storeDeferred K (descriptor # rest) rc s =
     (case storeDescriptor K s descriptor of
        (localRc, s') \<Rightarrow> storeDeferred K rest (rc \<and> localRc) s')"

definition extendedStoreDescriptor ::
  "decls \<Rightarrow> BinLogParser \<Rightarrow> typeDescriptor \<Rightarrow> bool \<times> BinLogParser" where
  "extendedStoreDescriptor K s desc =
     (case storeDeferred K (m_descriptorForDeferredStorage s) True s of
        (rc, s1) \<Rightarrow>
          let s2 = s1\<lparr>m_descriptorForDeferredStorage := []\<rparr>
          in if rc then storeDescriptor K s2 desc else (rc, s2))"

text \<open>The search loop of \<^verbatim>\<open>detectMavType\<close>, from position \<open>i\<close> on.\<close>
fun findNameIndex :: "NameValuePair list \<Rightarrow> nat \<Rightarrow> nat option" where
  "findNameIndex [] i = None"
| "findNameIndex (p # ps) i = (if fst p = ''Name'' then Some i else findNameIndex ps (i + 1))"

text \<open>A QVariant against a string that is not the text of a number: equal only when it
  is that string.\<close>
definition variantIs :: "qvariant \<Rightarrow> string \<Rightarrow> bool" where
  "variantIs v str = (case v of VString x \<Rightarrow> x = str | _ \<Rightarrow> False)"

definition detectMavType :: "BinLogParser \<Rightarrow> NameValuePair list \<Rightarrow> BinLogParser option" where
  "detectMavType s valuepairlist =
     (let nameIndex = (case findNameIndex valuepairlist 0 of Some i \<Rightarrow> i | None \<Rightarrow> 0)
      in
        if nameIndex < length valuepairlist then
          let v = snd (valuepairlist ! nameIndex);
              s1 = (if variantIs v ''RATE_RLL_P'' \<or> variantIs v ''H_SWASH_PLATE''
                       \<or> variantIs v ''ATC_RAT_RLL_P''
                    then s\<lparr>m_loadedLogType := MAV_TYPE_QUADROTOR\<rparr>
                    else if variantIs v ''PTCH2SRV_P''
                    then s\<lparr>m_loadedLogType := MAV_TYPE_FIXED_WING\<rparr>
                    else if variantIs v ''SKID_STEER_OUT''
                    then s\<lparr>m_loadedLogType := MAV_TYPE_GROUND_ROVER\<rparr>
                    else s)
          in Some (if m_loadedLogType s1 \<noteq> MAV_TYPE_GENERIC
                   then s1\<lparr>m_logLoadingState :=
                            setMavType (m_loadedLogType s1) (m_logLoadingState s1)\<rparr>
                   else s1)
        else None)"

subsection \<open>The loops of parse\<close>

text \<open>
  How one pass through the body of the inner loop ends: with the next pass, with
  \<^verbatim>\<open>break\<close>, with \<^verbatim>\<open>return\<close> out of \<^verbatim>\<open>parse\<close>, or in a read outside a container.
\<close>
datatype flow = Continue BinLogParser | Break BinLogParser | Return BinLogParser | OutOfRange

text \<open>The branch for an FMT record, after its header.\<close>
definition parseFMTRecord :: "decls \<Rightarrow> BinLogParser \<Rightarrow> flow" where
  "parseFMTRecord K s =
     (case parseFMTMessage s typeDescriptor_init of
        None \<Rightarrow> OutOfRange
      | Some (False, s1, descriptor) \<Rightarrow> Break s1
      | Some (True, s1, descriptor) \<Rightarrow>
          let descriptor1 = (if m_name descriptor = ''GPS''
                             then replaceLabelName ''TimeMS'' ''GPSTimeMS'' descriptor
                             else descriptor)
          in
            if ts_valid (m_activeTimestamp s1) then
              (case extendedStoreDescriptor K s1 (finalize (m_activeTimestamp s1) descriptor1) of
                 (False, s2) \<Rightarrow> Return s2
               | (True, s2) \<Rightarrow> Continue s2)
            else Continue (checkForValidTimestamp s1 descriptor1))"

text \<open>The branch for a data record whose type has the descriptor \<open>descriptor\<close>.\<close>
definition parseDataRecord :: "decls \<Rightarrow> BinLogParser \<Rightarrow> typeDescriptor \<Rightarrow> flow" where
  "parseDataRecord K s descriptor =
     (case parseDataByDescriptor s descriptor of
        (False, s1, NameValuePairList) \<Rightarrow> Break s1
      | (True, s1, NameValuePairList) \<Rightarrow>
          if length NameValuePairList \<ge> 1 then
            (case storeNameValuePairList K s1 NameValuePairList descriptor of
               None \<Rightarrow> OutOfRange
             | Some (False, s2, list2) \<Rightarrow> Return s2
             | Some (True, s2, list2) \<Rightarrow>
                 if m_loadedLogType s2 = MAV_TYPE_GENERIC \<and> m_name descriptor = ''PARM'' then
                   (case detectMavType s2 list2 of
                      None \<Rightarrow> OutOfRange
                    | Some s3 \<Rightarrow> Continue s3)
                 else Continue s2)
          else
            Continue (s1\<lparr>m_logLoadingState :=
                          corruptDataRead (m_MessageCounter s1) NoValues (m_logLoadingState s1)\<rparr>))"

text \<open>The body of the inner loop.\<close>
definition innerStep :: "decls \<Rightarrow> BinLogParser \<Rightarrow> flow" where
  "innerStep K s =
     (case headerIsValid s of
        None \<Rightarrow> OutOfRange
      | Some (False, s1) \<Rightarrow> Continue (s1\<lparr>noMessageBytes := noMessageBytes s1 + 1\<rparr>)
      | Some (True, s1) \<Rightarrow>
          if m_messageType s1 = s_FMTMessageType then parseFMTRecord K s1
          else
            (case m_typeToDescriptorMap s1 (m_messageType s1) of
               Some descriptor \<Rightarrow> parseDataRecord K s1 descriptor
             | None \<Rightarrow>
                 Continue (s1\<lparr>m_logLoadingState :=
                               corruptDataRead (m_MessageCounter s1)
                                 (NoDescriptor (m_messageType s1)) (m_logLoadingState s1)\<rparr>)))"

text \<open>How a loop, and \<^verbatim>\<open>parse\<close>, ends: it ran to its end, it returned early after a
  failure of the sink (or for a null pointer), or it read outside a container.\<close>
datatype outcome = Finished BinLogParser | Aborted BinLogParser | Crashed

definition innerGuard :: "decls \<Rightarrow> BinLogParser \<Rightarrow> bool" where
  "innerGuard K s =
     (int (length (m_dataBlock s)) - int (m_dataPos s) > int (s_MinHeaderSize K) \<and> \<not> m_stop s)"

partial_function (option) innerLoop :: "decls \<Rightarrow> BinLogParser \<Rightarrow> outcome option" where
  "innerLoop K s =
     (if innerGuard K s then
        (case innerStep K s of
           Continue s' \<Rightarrow> innerLoop K s'
         | Break s' \<Rightarrow> Some (Finished s')
         | Return s' \<Rightarrow> Some (Aborted s')
         | OutOfRange \<Rightarrow> Some Crashed)
      else Some (Finished s))"

text \<open>The head of the outer loop's body: the progress report, the removal of the bytes
  before the cursor but for \<^verbatim>\<open>s_MinHeaderSize\<close> of them, and the next 8192 bytes of the
  file.\<close>
definition refill :: "decls \<Rightarrow> BinLogParser \<Rightarrow> BinLogParser" where
  "refill K s =
     s\<lparr>m_callbackObject :=
         onProgress (logfileSize s - length (logfile s)) (logfileSize s) (m_callbackObject s),
       m_dataBlock :=
         (if m_dataPos s > s_MinHeaderSize K
          then remove0 (m_dataBlock s) (int (m_dataPos s) - int (s_MinHeaderSize K))
          else m_dataBlock s) @ take 8192 (logfile s),
       logfile := drop 8192 (logfile s),
       m_dataPos := 0\<rparr>"

definition outerGuard :: "BinLogParser \<Rightarrow> bool" where
  "outerGuard s = (logfile s \<noteq> [] \<and> \<not> m_stop s)"

partial_function (option) outerLoop :: "decls \<Rightarrow> BinLogParser \<Rightarrow> outcome option" where
  "outerLoop K s =
     (if outerGuard s then
        (case innerLoop K (refill K s) of
           None \<Rightarrow> None
         | Some (Finished s') \<Rightarrow> outerLoop K s'
         | Some (Aborted s') \<Rightarrow> Some (Aborted s')
         | Some Crashed \<Rightarrow> Some Crashed)
      else Some (Finished s))"

definition parse :: "decls \<Rightarrow> BinLogParser \<Rightarrow> outcome option" where
  "parse K s =
     (if dataModelIsNull s \<or> callbackIsNull s then Some (Aborted s)
      else
        (case startTransaction (m_dataModel s) of
           (False, m) \<Rightarrow>
             Some (Aborted (s\<lparr>m_dataModel := m,
                              m_callbackObject := onError (m_callbackObject s)\<rparr>))
         | (True, m) \<Rightarrow>
             (case outerLoop K (s\<lparr>m_dataModel := m, noMessageBytes := 0\<rparr>) of
                None \<Rightarrow> None
              | Some Crashed \<Rightarrow> Some Crashed
              | Some (Aborted s1) \<Rightarrow> Some (Aborted s1)
              | Some (Finished s1) \<Rightarrow>
                  let s2 = (if noMessageBytes s1 > 0
                            then s1\<lparr>m_logLoadingState :=
                                     setNoMessageBytes (noMessageBytes s1) (m_logLoadingState s1)\<rparr>
                            else s1)
                  in (case endTransaction (m_dataModel s2) of
                        (False, m') \<Rightarrow>
                          Some (Aborted (s2\<lparr>m_dataModel := m',
                                           m_callbackObject := onError (m_callbackObject s2)\<rparr>))
                      | (True, m') \<Rightarrow>
                          Some (Finished (s2\<lparr>m_dataModel :=
                                  setAllRowsHaveTime True (ts_name (m_activeTimestamp s2))
                                    (ts_divisor (m_activeTimestamp s2)) m'\<rparr>))))))"

subsection \<open>Sample inputs\<close>

text \<open>A sink that has stored nothing and accepts every call, a callback that has heard
  nothing, and the missing declarations with a given \<^verbatim>\<open>s_MinHeaderSize\<close>.\<close>
definition freshModel :: AP2DataPlot2DModel where
  "freshModel = \<lparr>addedTypes = [], addedRows = [], answers = [], transactionsStarted = 0,
     transactionsEnded = 0, allRowsHaveTime = None\<rparr>"

definition freshCallback :: IParserCallback where
  "freshCallback = \<lparr>progressReports = [], errorReports = 0\<rparr>"

definition declsWith :: "nat \<Rightarrow> decls" where
  "declsWith n =
     \<lparr>s_MinHeaderSize = n, s_STRTMessageType = CHR 0x0A, toULongLong_other = (\<lambda>v. 0)\<rparr>"

text \<open>The buffer holds the first six bytes of an FMT record (for type 0x81, of length
  0x59 = 89); the file has three more bytes.\<close>
definition shortFMT :: BinLogParser where
  "shortFMT = (BinLogParser_init freshModel freshCallback ''EST'')
     \<lparr>m_dataBlock := [CHR 0xA3, CHR 0x95, CHR 0x80, CHR 0x81, CHR 0x59, CHR ''T'']\<rparr>"

text \<open>A lone 0xA3 in front of the header of an FMT record.\<close>
definition strayStartByte :: BinLogParser where
  "strayStartByte = (BinLogParser_init freshModel freshCallback [])
     \<lparr>m_dataBlock := [CHR 0xA3, CHR 0xA3, CHR 0x95, CHR 0x80, CHR 0x81, CHR 0x59]\<rparr>"

text \<open>A descriptor of records with one byte and one float, and the body of such a record
  whose float is the NaN 0x7FC00000, with the cursor behind its header.\<close>
definition byteFloat :: typeDescriptor where
  "byteFloat = \<lparr>m_ID = CHR 0x81, m_length = 8, m_name = ''TEST'', m_format = ''Bf'',
     m_labels = [''X'', ''Y''], m_hasTimeStamp = False, m_timeStampIndex = 0\<rparr>"

definition nanRecord :: BinLogParser where
  "nanRecord = (BinLogParser_init freshModel freshCallback [])
     \<lparr>m_dataBlock := [CHR 0xA3, CHR 0x95, CHR 0x81, CHR 0x2A, CHR 0x00, CHR 0x00, CHR 0xC0,
                      CHR 0x7F, CHR 0xA3, CHR 0x95, CHR 0x81, CHR 0x2A],
      m_dataPos := 3, m_messageType := CHR 0x81,
      m_activeTimestamp := \<lparr>ts_name = ''TimeUS'', ts_divisor = 1000000\<rparr>,
      m_typeToDescriptorMap := [CHR 0x81 \<mapsto> byteFloat]\<rparr>"

text \<open>A PARM descriptor without a label \<open>Name\<close>, and a record of it whose first field
  holds the text PTCH2SRV_P and whose timestamp is 1000000.\<close>
definition parmDescriptor :: typeDescriptor where
  "parmDescriptor = \<lparr>m_ID = CHR 0x82, m_length = 27, m_name = ''PARM'', m_format = ''NQ'',
     m_labels = [''Nm'', ''TimeUS''], m_hasTimeStamp = True, m_timeStampIndex = 1\<rparr>"

definition parmRecord :: BinLogParser where
  "parmRecord = (BinLogParser_init freshModel freshCallback [])
     \<lparr>m_dataBlock := [CHR 0xA3, CHR 0x95, CHR 0x82] @ ''PTCH2SRV_P''
        @ [CHR 0x00, CHR 0x00, CHR 0x00, CHR 0x00, CHR 0x00, CHR 0x00,
           CHR 0x40, CHR 0x42, CHR 0x0F, CHR 0x00, CHR 0x00, CHR 0x00, CHR 0x00, CHR 0x00],
      m_dataPos := 3, m_messageType := CHR 0x82,
      m_activeTimestamp := \<lparr>ts_name = ''TimeUS'', ts_divisor = 1000000\<rparr>,
      m_typeToDescriptorMap := [CHR 0x82 \<mapsto> parmDescriptor]\<rparr>"

text \<open>A log of five records: the FMT records of TEST (type 0x81, a byte X and the
  timestamp TimeUS) and of PING (type 0x82, a byte SEQ), a TEST record at time 1000000, a
  PING record, and a TEST record at time 999999.\<close>
definition fmtTEST :: string where
  "fmtTEST = [CHR 0xA3, CHR 0x95, CHR 0x80, CHR 0x81, CHR 0x0C] @ ''TEST'' @ ''BQ''
     @ replicate 14 (CHR 0x00) @ ''X,TimeUS'' @ replicate 56 (CHR 0x00)"

definition fmtPING :: string where
  "fmtPING = [CHR 0xA3, CHR 0x95, CHR 0x80, CHR 0x82, CHR 0x04] @ ''PING'' @ ''B''
     @ replicate 15 (CHR 0x00) @ ''SEQ'' @ replicate 61 (CHR 0x00)"

definition sampleLog :: string where
  "sampleLog = fmtTEST @ fmtPING
     @ [CHR 0xA3, CHR 0x95, CHR 0x81, CHR 0x2A,
        CHR 0x40, CHR 0x42, CHR 0x0F, CHR 0x00, CHR 0x00, CHR 0x00, CHR 0x00, CHR 0x00]
     @ [CHR 0xA3, CHR 0x95, CHR 0x82, CHR 0x07]
     @ [CHR 0xA3, CHR 0x95, CHR 0x81, CHR 0x2B,
        CHR 0x3F, CHR 0x42, CHR 0x0F, CHR 0x00, CHR 0x00, CHR 0x00, CHR 0x00, CHR 0x00]"


text \<open>The first twelve bytes of an FMT record, as a whole log.\<close>
definition truncatedLog :: string where
  "truncatedLog = [CHR 0xA3, CHR 0x95, CHR 0x80, CHR 0x81, CHR 0x59] @ ''TESTBQ,''"

text \<open>A second descriptor for the id of \<open>byteFloat\<close>.\<close>
definition duplicate :: typeDescriptor where
  "duplicate = \<lparr>m_ID = CHR 0x81, m_length = 5, m_name = ''DUPL'', m_format = ''BB'',
     m_labels = [''A'', ''B''], m_hasTimeStamp = False, m_timeStampIndex = 0\<rparr>"

text \<open>The descriptor of PING, which has no timestamp, and a PING record behind its header,
  when the active timestamp is TimeUS and the last valid timestamp is 1000000.\<close>
definition pingDescriptor :: typeDescriptor where
  "pingDescriptor = \<lparr>m_ID = CHR 0x82, m_length = 4, m_name = ''PING'', m_format = ''B'',
     m_labels = [''SEQ''], m_hasTimeStamp = False, m_timeStampIndex = 0\<rparr>"

definition pingRecord :: BinLogParser where
  "pingRecord = (BinLogParser_init freshModel freshCallback [])
     \<lparr>m_dataBlock := [CHR 0xA3, CHR 0x95, CHR 0x82, CHR 0x07],
      m_dataPos := 3, m_messageType := CHR 0x82, m_lastValidTimeStamp := 1000000,
      m_activeTimestamp := \<lparr>ts_name = ''TimeUS'', ts_divisor = 1000000\<rparr>\<rparr>"

text \<open>A parser that has read no format message with a timestamp yet, in front of the
  format message of TEST (labels X and TimeUS) and of a TEST record; the descriptor that
  the format message describes, finalized for TimeUS.\<close>
definition discoveringFMT :: BinLogParser where
  "discoveringFMT = (BinLogParser_init freshModel freshCallback [])
     \<lparr>m_dataBlock := fmtTEST
        @ [CHR 0xA3, CHR 0x95, CHR 0x81, CHR 0x2A,
           CHR 0x40, CHR 0x42, CHR 0x0F, CHR 0x00, CHR 0x00, CHR 0x00, CHR 0x00, CHR 0x00]\<rparr>"

definition testDescriptor :: typeDescriptor where
  "testDescriptor = \<lparr>m_ID = CHR 0x81, m_length = 12, m_name = ''TEST'', m_format = ''BQ'',
     m_labels = [''X'', ''TimeUS''], m_hasTimeStamp = True, m_timeStampIndex = 1\<rparr>"

text \<open>A parser whose active timestamp is TimeUS and whose queue holds
  \<open>testDescriptor\<close>, behind the header of the format message of PING.\<close>
definition secondFMT :: BinLogParser where
  "secondFMT = (BinLogParser_init freshModel freshCallback [])
     \<lparr>m_dataBlock := fmtPING, m_dataPos := 3, m_messageType := CHR 0x80,
      m_activeTimestamp := \<lparr>ts_name = ''TimeUS'', ts_divisor = 1000000\<rparr>,
      m_descriptorForDeferredStorage := [testDescriptor]\<rparr>"

text \<open>The bytes of a TEST record, with X = 42 and TimeUS = 1000000.\<close>
definition testRecord :: string where
  "testRecord = [CHR 0xA3, CHR 0x95, CHR 0x81, CHR 0x2A,
     CHR 0x40, CHR 0x42, CHR 0x0F, CHR 0x00, CHR 0x00, CHR 0x00, CHR 0x00, CHR 0x00]"

text \<open>A parser whose active timestamp is TimeUS and whose buffer ends six bytes into the
  format message of TEST; the file holds the rest of the message and a TEST record.\<close>
definition splitFMT :: BinLogParser where
  "splitFMT = (BinLogParser_init freshModel freshCallback (drop 6 fmtTEST @ testRecord))
     \<lparr>m_dataBlock := take 6 fmtTEST,
      m_activeTimestamp := \<lparr>ts_name = ''TimeUS'', ts_divisor = 1000000\<rparr>\<rparr>"

text \<open>A parser that knows the descriptor of TEST and whose buffer ends six bytes into a
  TEST record; the file holds the rest of the record.\<close>
definition splitData :: BinLogParser where
  "splitData = (BinLogParser_init freshModel freshCallback (drop 6 testRecord))
     \<lparr>m_dataBlock := take 6 testRecord,
      m_activeTimestamp := \<lparr>ts_name = ''TimeUS'', ts_divisor = 1000000\<rparr>,
      m_typeToDescriptorMap := [CHR 0x81 \<mapsto> testDescriptor]\<rparr>"

subsection \<open>Notions of the statements\<close>

text \<open>The stream behind the fields of a piece of a format string; \<open>None\<close> when one of
  these fields breaks the decoding off.\<close>
fun skipFields :: "string \<Rightarrow> string \<Rightarrow> string option" where
  "skipFields [] stream = Some stream"
| "skipFields (typeCode # rest) stream =
     (case decodeField typeCode stream of
        Field v stream' \<Rightarrow> skipFields rest stream'
      | NaNFound \<Rightarrow> None
      | UnknownType \<Rightarrow> None)"

text \<open>What \<^verbatim>\<open>storeDescriptor\<close> hands to the sink for a descriptor.\<close>
definition sinkTypeOf :: "timeStampType \<Rightarrow> typeDescriptor \<Rightarrow> sinkType" where
  "sinkTypeOf a d =
     (let d' = (if hasNoTimestamp d then addTimeStampField a d else d)
      in (m_name d', m_ID d', m_length d', m_format d', m_labels d'))"

text \<open>The descriptors of a list that \<^verbatim>\<open>storeDescriptor\<close> enters into the registry
  \<open>reg\<close>, one after the other: the valid ones whose id is not yet there.\<close>
fun newcomers ::
  "decls \<Rightarrow> (char \<rightharpoonup> typeDescriptor) \<Rightarrow> typeDescriptor list \<Rightarrow> typeDescriptor list" where
  "newcomers K reg [] = []"
| "newcomers K reg (d # ds) =
     (if isValid K d \<and> reg (m_ID d) = None
      then d # newcomers K (reg(m_ID d \<mapsto> d)) ds
      else newcomers K reg ds)"

text \<open>The timestamp of a row of the sink: the number in its first field with the label
  that was given to \<^verbatim>\<open>addRow\<close> as the name of the time axis.\<close>
definition rowTime :: "decls \<Rightarrow> sinkRow \<Rightarrow> nat" where
  "rowTime K r =
     (case map_of (fst (snd r)) (snd (snd r)) of
        Some v \<Rightarrow> toULongLong K v
      | None \<Rightarrow> 0)"

text \<open>A descriptor is final for a timestamp when its flag and index say where the name of
  the timestamp stands first among its labels.\<close>
definition descriptorFinal :: "timeStampType \<Rightarrow> typeDescriptor \<Rightarrow> bool" where
  "descriptorFinal a d =
     (indexOf (m_labels d) (ts_name a) =
        (if m_hasTimeStamp d then Some (m_timeStampIndex d) else None))"

text \<open>
  What holds of the parser between any two steps of \<^verbatim>\<open>parse\<close>: the possible
  timestamps are valid and the active one, once valid, is one of them; the registry is
  empty until then, and holds valid descriptors, under their ids, final for the active
  timestamp; a deferred descriptor is final for the active timestamp or, before there is
  one, has no flag and none of the possible names among its labels; the rows of the sink
  behind its first \<open>n\<close> rows are in the order of their timestamps, none of them later
  than the last valid one.
\<close>
definition candidatesOK :: "BinLogParser \<Rightarrow> bool" where
  "candidatesOK s =
     (list_all ts_valid (m_possibleTimestamps s)
      \<and> (ts_valid (m_activeTimestamp s)
           \<longrightarrow> m_activeTimestamp s \<in> set (m_possibleTimestamps s)))"

definition registryOK :: "decls \<Rightarrow> BinLogParser \<Rightarrow> bool" where
  "registryOK K s =
     ((\<forall>k d. m_typeToDescriptorMap s k = Some d
          \<longrightarrow> isValid K d \<and> m_ID d = k \<and> descriptorFinal (m_activeTimestamp s) d)
      \<and> (\<not> ts_valid (m_activeTimestamp s) \<longrightarrow> m_typeToDescriptorMap s = Map.empty))"

definition queueOK :: "BinLogParser \<Rightarrow> bool" where
  "queueOK s =
     (\<forall>q \<in> set (m_descriptorForDeferredStorage s).
        if ts_valid (m_activeTimestamp s) then descriptorFinal (m_activeTimestamp s) q
        else \<not> m_hasTimeStamp q
             \<and> (\<forall>c \<in> set (m_possibleTimestamps s). ts_name c \<notin> set (m_labels q)))"

definition rowsOK :: "nat \<Rightarrow> decls \<Rightarrow> BinLogParser \<Rightarrow> bool" where
  "rowsOK n K s =
     (n \<le> length (addedRows (m_dataModel s))
      \<and> sorted (map (rowTime K) (drop n (addedRows (m_dataModel s))))
      \<and> (\<forall>r \<in> set (drop n (addedRows (m_dataModel s))).
            rowTime K r \<le> m_lastValidTimeStamp s))"

definition parserOK :: "nat \<Rightarrow> decls \<Rightarrow> BinLogParser \<Rightarrow> bool" where
  "parserOK n K s = (candidatesOK s \<and> registryOK K s \<and> queueOK s \<and> rowsOK n K s)"

section \<open>Properties\<close>

text \<open>The definitions that a run of the parser on a concrete input unfolds.\<close>
lemmas run_defs = parse_def outerLoop.simps innerLoop.simps innerStep_def innerGuard_def outerGuard_def
  refill_def headerIsValid_def parseFMTRecord_def parseFMTMessage_def parseDataRecord_def
  parseDataByDescriptor_def storeNameValuePairList_def readTimeStamp_def extendedStoreDescriptor_def
  storeDescriptor_def checkForValidTimestamp_def detectMavType_def decodeField_def
  byteAt_def mid_def remove0_def toQString_def readUnsigned_def readSigned_def
  finalize_def addTimeStampField_def replaceLabelName_def getLabelAtIndex_def hasNoTimestamp_def
  isValid_def ts_valid_def toULongLong_def
  startTransaction_def endTransaction_def addType_def addRow_def sinkAnswer_def setAllRowsHaveTime_def
  onProgress_def onError_def validDataRead_def corruptDataRead_def corruptFMTRead_def
  corruptTimeRead_def setNoMessageBytes_def setMavType_def
  s_StartByte1_def s_StartByte2_def s_FMTMessageType_def s_HeaderOffset_def s_FMTNameSize_def
  s_FMTFormatSize_def s_FMTLabelsSize_def typeDescriptor_init_def BinLogParser_init_def
  freshModel_def freshCallback_def declsWith_def Let_def

subsection \<open>Short reads\<close>

lemma headerIsValid_True:
  assumes "headerIsValid s = Some (True, s1)"
  shows "s1 = s\<lparr>m_dataPos := m_dataPos s + 3, m_messageType := m_messageType s1\<rparr>"
  using assms by (auto simp: headerIsValid_def split: option.splits if_splits)

lemma headerIsValid_True_length:
  assumes "headerIsValid s = Some (True, s1)"
  shows "m_dataPos s + 3 \<le> length (m_dataBlock s)"
  using assms by (auto simp: headerIsValid_def byteAt_def split: option.splits if_splits)

lemma parseFMTMessage_False:
  assumes "parseFMTMessage s d = Some (False, s2, d')"
  shows "s2 = s\<lparr>m_dataPos := m_dataPos s + 2\<rparr>"
  using assms by (auto simp: parseFMTMessage_def Let_def split: option.splits if_splits)

lemma parseFMTMessage_Some_length:
  assumes "parseFMTMessage s d = Some r"
  shows "m_dataPos s + 2 \<le> length (m_dataBlock s)"
  using assms by (auto simp: parseFMTMessage_def byteAt_def split: option.splits if_splits)

lemma parseDataByDescriptor_False:
  assumes "parseDataByDescriptor s d = (False, s2, l)"
  shows "s2 = s"
  using assms by (auto simp: parseDataByDescriptor_def Let_def split: if_splits prod.splits)

lemma refill_block:
  "m_dataBlock (refill K s) =
     drop (m_dataPos s - s_MinHeaderSize K) (m_dataBlock s) @ take 8192 (logfile s)"
  by (simp add: refill_def remove0_def nat_diff_distrib')

text \<open>After a short read the inner loop breaks with the buffer as it was; the cursor
  stands 5 bytes behind the start of the header for a format message, 3 bytes for a data
  record. The next pass of the outer loop keeps \<^verbatim>\<open>s_MinHeaderSize\<close> bytes before the
  cursor and removes what is before them.\<close>
lemma short_read_FMT_refill:
  assumes "headerIsValid s = Some (True, s1)"
    and "parseFMTMessage s1 typeDescriptor_init = Some (False, s2, d')"
  shows "parseFMTRecord K s1 = Break s2
       \<and> m_dataPos s2 = m_dataPos s + 5
       \<and> m_dataPos (refill K s2) = 0
       \<and> m_dataBlock (refill K s2) =
           drop (m_dataPos s + 5 - s_MinHeaderSize K) (m_dataBlock s) @ take 8192 (logfile s)"
proof -
  note h = headerIsValid_True [OF assms(1)]
  have b1: "m_dataBlock s1 = m_dataBlock s" and p1: "m_dataPos s1 = m_dataPos s + 3"
    and l1: "logfile s1 = logfile s"
    by (subst h, simp)+
  note f = parseFMTMessage_False [OF assms(2)]
  have b2: "m_dataBlock s2 = m_dataBlock s" and p2: "m_dataPos s2 = m_dataPos s + 5"
    and l2: "logfile s2 = logfile s"
    by (subst f, simp add: b1 p1 l1)+
  have "parseFMTRecord K s1 = Break s2" using assms(2) by (simp add: parseFMTRecord_def)
  moreover have "m_dataPos (refill K s2) = 0" by (simp add: refill_def)
  moreover have "m_dataBlock (refill K s2) =
      drop (m_dataPos s + 5 - s_MinHeaderSize K) (m_dataBlock s) @ take 8192 (logfile s)"
    by (simp only: refill_block b2 p2 l2)
  ultimately show ?thesis using p2 by blast
qed

lemma short_read_data_refill:
  assumes "headerIsValid s = Some (True, s1)"
    and "parseDataByDescriptor s1 desc = (False, s3, l)"
  shows "parseDataRecord K s1 desc = Break s3
       \<and> m_dataPos s3 = m_dataPos s + 3
       \<and> m_dataPos (refill K s3) = 0
       \<and> m_dataBlock (refill K s3) =
           drop (m_dataPos s + 3 - s_MinHeaderSize K) (m_dataBlock s) @ take 8192 (logfile s)"
proof -
  note h = headerIsValid_True [OF assms(1)]
  have b1: "m_dataBlock s1 = m_dataBlock s" and p1: "m_dataPos s1 = m_dataPos s + 3"
    and l1: "logfile s1 = logfile s"
    by (subst h, simp)+
  have f: "s3 = s1" using assms(2) parseDataByDescriptor_False by blast
  have "parseDataRecord K s1 desc = Break s3" using assms(2) by (simp add: parseDataRecord_def)
  moreover have "m_dataPos (refill K s3) = 0" by (simp add: refill_def)
  moreover have "m_dataBlock (refill K s3) =
      drop (m_dataPos s + 3 - s_MinHeaderSize K) (m_dataBlock s) @ take 8192 (logfile s)"
    by (simp only: f refill_block b1 p1 l1)
  ultimately show ?thesis using p1 f by blast
qed

text \<open>A data record cut after six bytes, with \<^verbatim>\<open>s_MinHeaderSize\<close> = 3: the refilled
  buffer starts with the header of the record, and the record is decoded and stored.\<close>
lemma split_data_record_completed:
  "m_dataBlock splitData @ logfile splitData = testRecord
   \<and> innerLoop (declsWith 3) splitData
     = Some (Finished (splitData\<lparr>m_dataPos := 3, m_messageType := CHR 0x81\<rparr>))
   \<and> m_dataBlock (refill (declsWith 3) (splitData\<lparr>m_dataPos := 3, m_messageType := CHR 0x81\<rparr>))
     = testRecord
   \<and> outerLoop (declsWith 3) (splitData\<lparr>m_dataPos := 3, m_messageType := CHR 0x81\<rparr>)
     = Some (Finished (splitData
         \<lparr>m_callbackObject := freshCallback\<lparr>progressReports := [(0, 6)]\<rparr>,
          m_dataModel := freshModel\<lparr>addedRows :=
            [(''TEST'', [(''X'', VUInt 42), (''TimeUS'', VUInt 1000000)], ''TimeUS'')]\<rparr>,
          m_dataBlock := [], m_dataPos := 0, m_messageType := CHR 0x81,
          m_MessageCounter := 1, m_lastValidTimeStamp := 1000000,
          m_logLoadingState := validDataRead (m_logLoadingState splitData),
          logfile := []\<rparr>))"
  by (simp add: run_defs splitData_def testRecord_def testDescriptor_def)

text \<open>The format message cut after six bytes, with \<^verbatim>\<open>s_MinHeaderSize\<close> = 5: nothing
  is removed, the descriptor is stored and the record behind it is decoded.\<close>
lemma split_FMT_record_completed_at_5:
  "innerLoop (declsWith 5) splitFMT
     = Some (Finished (splitFMT\<lparr>m_dataPos := 5, m_messageType := CHR 0x80\<rparr>))
   \<and> m_dataBlock (refill (declsWith 5) (splitFMT\<lparr>m_dataPos := 5, m_messageType := CHR 0x80\<rparr>))
     = fmtTEST @ testRecord
   \<and> outerLoop (declsWith 5) (splitFMT\<lparr>m_dataPos := 5, m_messageType := CHR 0x80\<rparr>)
     = Some (Finished (splitFMT
         \<lparr>m_callbackObject := freshCallback\<lparr>progressReports := [(0, 95)]\<rparr>,
          m_dataModel := freshModel
            \<lparr>addedTypes := [(''TEST'', CHR 0x81, 12, ''BQ'', [''X'', ''TimeUS''])],
             addedRows :=
               [(''TEST'', [(''X'', VUInt 42), (''TimeUS'', VUInt 1000000)], ''TimeUS'')]\<rparr>,
          m_dataBlock := [], m_dataPos := 0, m_messageType := CHR 0x81,
          m_MessageCounter := 2, m_lastValidTimeStamp := 1000000,
          m_logLoadingState := validDataRead (m_logLoadingState splitFMT),
          m_typeToDescriptorMap := [CHR 0x81 \<mapsto> testDescriptor],
          logfile := []\<rparr>))"
  by (simp add: run_defs splitFMT_def fmtTEST_def testRecord_def testDescriptor_def)




subsection \<open>The header check\<close>

text \<open>
  Claim C5 (the code at a failing input). The buffer starts with a stray 0xA3 and then
  holds the header A3 95 80 of an FMT record. The header check at position 0 fails at its
  second byte and leaves the cursor at 2, inside that header; the inner loop counts one
  non-message byte. A header check at position 1 would have succeeded; the one at
  position 2 fails again, so the record is passed over.
\<close>
theorem headerIsValid_stray_start_byte:
  "innerStep K strayStartByte
     = Continue (strayStartByte\<lparr>m_dataPos := 2, noMessageBytes := 1\<rparr>)
   \<and> headerIsValid (strayStartByte\<lparr>m_dataPos := 1\<rparr>)
     = Some (True, strayStartByte\<lparr>m_dataPos := 4, m_messageType := CHR 0x80\<rparr>)
   \<and> innerStep K (strayStartByte\<lparr>m_dataPos := 2, noMessageBytes := 1\<rparr>)
     = Continue (strayStartByte\<lparr>m_dataPos := 3, noMessageBytes := 2\<rparr>)"
  by (simp add: strayStartByte_def innerStep_def headerIsValid_def byteAt_def
      BinLogParser_init_def s_StartByte1_def s_StartByte2_def)

subsection \<open>Data records\<close>

lemma parseDataByDescriptor_enough:
  assumes "m_length desc - s_HeaderOffset \<le> int (length (m_dataBlock s)) - int (m_dataPos s)"
  shows "parseDataByDescriptor s desc =
     (True,
      s\<lparr>m_logLoadingState :=
           (case snd (decodeFields desc (m_format desc) 0
                        (mid (m_dataBlock s) (m_dataPos s) (m_length desc - s_HeaderOffset)) []) of
              None \<Rightarrow> m_logLoadingState s
            | Some msg \<Rightarrow> corruptDataRead (m_MessageCounter s) msg (m_logLoadingState s)),
        m_dataBlock := remove0 (m_dataBlock s) (m_length desc + int (m_dataPos s) - s_HeaderOffset),
        m_dataPos := 0\<rparr>,
      fst (decodeFields desc (m_format desc) 0
             (mid (m_dataBlock s) (m_dataPos s) (m_length desc - s_HeaderOffset)) []))"
  using assms by (simp add: parseDataByDescriptor_def Let_def split: prod.splits)

text \<open>
  Claim C9. When at least \<open>length - 3\<close> bytes are buffered behind the cursor,
  \<^verbatim>\<open>parseDataByDescriptor\<close> returns true and leaves the buffer without the bytes up to
  the cursor and the \<open>length - 3\<close> bytes behind it, with the cursor at 0. Neither the
  format nor the bytes of the record enter into this, so a record whose decoding was
  broken off (NaN, unknown format character) is consumed like any other; the inner loop
  does not break.
\<close>
theorem parseDataByDescriptor_consumes_record:
  assumes "m_length desc - s_HeaderOffset \<le> int (length (m_dataBlock s)) - int (m_dataPos s)"
  shows "fst (parseDataByDescriptor s desc)
       \<and> m_dataBlock (fst (snd (parseDataByDescriptor s desc)))
           = drop (nat (int (m_dataPos s) + (m_length desc - 3))) (m_dataBlock s)
       \<and> m_dataPos (fst (snd (parseDataByDescriptor s desc))) = 0
       \<and> (\<forall>s'. parseDataRecord K s desc \<noteq> Break s')"
proof -
  note eq = parseDataByDescriptor_enough [OF assms]
  have a: "fst (parseDataByDescriptor s desc)" by (simp add: eq)
  have b: "m_dataBlock (fst (snd (parseDataByDescriptor s desc)))
           = drop (nat (int (m_dataPos s) + (m_length desc - 3))) (m_dataBlock s)"
    by (simp add: eq remove0_def s_HeaderOffset_def algebra_simps)
  have c: "m_dataPos (fst (snd (parseDataByDescriptor s desc))) = 0" by (simp add: eq)
  have d: "\<forall>s'. parseDataRecord K s desc \<noteq> Break s'"
    by (simp add: parseDataRecord_def eq split: option.splits bool.splits prod.splits)
  from a b c d show ?thesis by blast
qed

text \<open>The record with the NaN: its 5 body bytes are consumed, the buffer then starts with
  the next header.\<close>
theorem parseDataByDescriptor_consumes_record_witness:
  "fst (parseDataByDescriptor nanRecord byteFloat)
   \<and> m_dataBlock (fst (snd (parseDataByDescriptor nanRecord byteFloat)))
       = [CHR 0xA3, CHR 0x95, CHR 0x81, CHR 0x2A]
   \<and> m_dataPos (fst (snd (parseDataByDescriptor nanRecord byteFloat))) = 0
   \<and> snd (snd (parseDataByDescriptor nanRecord byteFloat)) = []"
proof -
  have e: "m_length byteFloat - s_HeaderOffset
      \<le> int (length (m_dataBlock nanRecord)) - int (m_dataPos nanRecord)"
    by (simp add: byteFloat_def nanRecord_def s_HeaderOffset_def)
  have l: "snd (snd (parseDataByDescriptor nanRecord byteFloat)) = []"
    by (simp add: parseDataByDescriptor_def byteFloat_def nanRecord_def s_HeaderOffset_def
        mid_def decodeField_def readUnsigned_def isNaN_def Let_def)
  from parseDataByDescriptor_consumes_record [OF e] l show ?thesis
    by (simp add: byteFloat_def nanRecord_def)
qed

subsection \<open>The vehicle kind\<close>

lemma storeNameValuePairList_length:
  assumes "storeNameValuePairList K s nvl d = Some (b, s2, list2)"
  shows "length nvl \<le> length list2"
  using assms
  by (auto simp: storeNameValuePairList_def readTimeStamp_def Let_def
      split: if_splits option.splits prod.splits bool.splits)

lemma readChars_eq:
  "readChars n stream val = (val @ filter (\<lambda>c. c \<noteq> CHR 0x00) (take n stream), drop n stream)"
proof (induction n arbitrary: stream val)
  case 0
  then show ?case by simp
next
  case (Suc n)
  show ?case
  proof (cases stream)
    case Nil
    then show ?thesis using Suc by (simp add: readUnsigned_def)
  next
    case (Cons c cs)
    have "(of_char c :: nat) = 0 \<longleftrightarrow> c = CHR 0x00"
      using of_char_eq_iff [of c "CHR 0x00", where ?'a = nat] by simp
    then show ?thesis using Suc Cons by (simp add: readUnsigned_def)
  qed
qed

lemma findNameIndex_None: "''Name'' \<notin> fst ` set vpl \<Longrightarrow> findNameIndex vpl i = None"
  by (induction vpl arbitrary: i) auto

lemma detectMavType_index0:
  assumes "valuepairlist \<noteq> []" and "''Name'' \<notin> fst ` set valuepairlist"
  shows "\<exists>s'. detectMavType s valuepairlist = Some s'
       \<and> m_loadedLogType s' =
           (let v = snd (valuepairlist ! 0) in
            if variantIs v ''RATE_RLL_P'' \<or> variantIs v ''H_SWASH_PLATE''
               \<or> variantIs v ''ATC_RAT_RLL_P'' then MAV_TYPE_QUADROTOR
            else if variantIs v ''PTCH2SRV_P'' then MAV_TYPE_FIXED_WING
            else if variantIs v ''SKID_STEER_OUT'' then MAV_TYPE_GROUND_ROVER
            else m_loadedLogType s)
       \<and> m_logLoadingState s' =
           (if m_loadedLogType s' \<noteq> MAV_TYPE_GENERIC
            then setMavType (m_loadedLogType s') (m_logLoadingState s)
            else m_logLoadingState s)"
  using assms by (simp add: detectMavType_def findNameIndex_None Let_def)

text \<open>
  Claim C10. \<^verbatim>\<open>parse\<close> runs the heuristic on the list of an emitted PARM row, which has
  at least one pair (the decoded list had one, and \<^verbatim>\<open>storeNameValuePairList\<close> removes
  none). When no pair of the list is labelled \<open>Name\<close>, the search leaves the index at 0:
  the heuristic decides on the value of the first pair, and sets the vehicle kind when that
  value is one of the five parameter names.
\<close>
theorem detectMavType_without_Name:
  assumes "parseDataByDescriptor s descriptor = (True, s1, nvl)"
    and "length nvl \<ge> 1"
    and "storeNameValuePairList K s1 nvl descriptor = Some (True, s2, valuepairlist)"
    and "m_loadedLogType s2 = MAV_TYPE_GENERIC"
    and "m_name descriptor = ''PARM''"
    and "''Name'' \<notin> fst ` set valuepairlist"
  shows "valuepairlist \<noteq> []
       \<and> (\<exists>s3. detectMavType s2 valuepairlist = Some s3
            \<and> parseDataRecord K s descriptor = Continue s3
            \<and> m_loadedLogType s3 =
                 (let v = snd (valuepairlist ! 0) in
                  if variantIs v ''RATE_RLL_P'' \<or> variantIs v ''H_SWASH_PLATE''
                     \<or> variantIs v ''ATC_RAT_RLL_P'' then MAV_TYPE_QUADROTOR
                  else if variantIs v ''PTCH2SRV_P'' then MAV_TYPE_FIXED_WING
                  else if variantIs v ''SKID_STEER_OUT'' then MAV_TYPE_GROUND_ROVER
                  else MAV_TYPE_GENERIC)
            \<and> m_logLoadingState s3 =
                 (if m_loadedLogType s3 \<noteq> MAV_TYPE_GENERIC
                  then setMavType (m_loadedLogType s3) (m_logLoadingState s2)
                  else m_logLoadingState s2))"
proof -
  have ne: "valuepairlist \<noteq> []"
    using storeNameValuePairList_length [OF assms(3)] assms(2) by auto
  from detectMavType_index0 [OF ne assms(6), of s2] obtain s3 where
    d: "detectMavType s2 valuepairlist = Some s3"
    and k: "m_loadedLogType s3 =
           (let v = snd (valuepairlist ! 0) in
            if variantIs v ''RATE_RLL_P'' \<or> variantIs v ''H_SWASH_PLATE''
               \<or> variantIs v ''ATC_RAT_RLL_P'' then MAV_TYPE_QUADROTOR
            else if variantIs v ''PTCH2SRV_P'' then MAV_TYPE_FIXED_WING
            else if variantIs v ''SKID_STEER_OUT'' then MAV_TYPE_GROUND_ROVER
            else m_loadedLogType s2)"
    and st: "m_logLoadingState s3 =
           (if m_loadedLogType s3 \<noteq> MAV_TYPE_GENERIC
            then setMavType (m_loadedLogType s3) (m_logLoadingState s2)
            else m_logLoadingState s2)"
    by blast
  have r: "parseDataRecord K s descriptor = Continue s3"
    using assms(1-5) d by (simp add: parseDataRecord_def)
  from ne d r k [unfolded assms(4)] st show ?thesis by blast
qed

lemma parm1: "parseDataByDescriptor parmRecord parmDescriptor =
   (True, parmRecord\<lparr>m_dataBlock := [], m_dataPos := 0\<rparr>, [(''Nm'', VString ''PTCH2SRV_P''), (''TimeUS'', VUInt 1000000)])"
  by (simp add: parseDataByDescriptor_def parmDescriptor_def parmRecord_def s_HeaderOffset_def
        mid_def decodeField_def readUnsigned_def readChars_eq Let_def remove0_def getLabelAtIndex_def BinLogParser_init_def)


lemma parm2: "storeNameValuePairList (declsWith 5) (parmRecord\<lparr>m_dataBlock := [], m_dataPos := 0\<rparr>)
     [(''Nm'', VString ''PTCH2SRV_P''), (''TimeUS'', VUInt 1000000)] parmDescriptor
   = Some (True, parmRecord\<lparr>m_dataBlock := [], m_dataPos := 0, m_lastValidTimeStamp := 1000000,
        m_dataModel := freshModel\<lparr>addedRows := [(''PARM'', [(''Nm'', VString ''PTCH2SRV_P''), (''TimeUS'', VUInt 1000000)], ''TimeUS'')]\<rparr>,
        m_MessageCounter := 1,
        m_logLoadingState := validDataRead (m_logLoadingState parmRecord)\<rparr>,
      [(''Nm'', VString ''PTCH2SRV_P''), (''TimeUS'', VUInt 1000000)])"
  by (simp add: storeNameValuePairList_def parmDescriptor_def parmRecord_def hasNoTimestamp_def
      readTimeStamp_def toULongLong_def addRow_def sinkAnswer_def freshModel_def BinLogParser_init_def Let_def)

theorem detectMavType_without_Name_witness:
  "\<exists>s3. parseDataRecord (declsWith 5) parmRecord parmDescriptor = Continue s3
      \<and> m_loadedLogType s3 = MAV_TYPE_FIXED_WING
      \<and> mavType (m_logLoadingState s3) = MAV_TYPE_FIXED_WING"
proof -
  have a: "m_loadedLogType (parmRecord\<lparr>m_dataBlock := [], m_dataPos := 0, m_lastValidTimeStamp := 1000000,
        m_dataModel := freshModel\<lparr>addedRows := [(''PARM'', [(''Nm'', VString ''PTCH2SRV_P''), (''TimeUS'', VUInt 1000000)], ''TimeUS'')]\<rparr>,
        m_MessageCounter := 1,
        m_logLoadingState := validDataRead (m_logLoadingState parmRecord)\<rparr>) = MAV_TYPE_GENERIC"
    by (simp add: parmRecord_def BinLogParser_init_def)
  have b: "m_name parmDescriptor = ''PARM''" by (simp add: parmDescriptor_def)
  have c: "''Name'' \<notin> fst ` set [(''Nm'', VString ''PTCH2SRV_P''), (''TimeUS'', VUInt 1000000)]"
    by simp
  have l: "length [(''Nm'', VString ''PTCH2SRV_P''), (''TimeUS'', VUInt 1000000)] \<ge> 1" by simp
  from detectMavType_without_Name [OF parm1 l parm2 a b c]
  show ?thesis by (auto simp: variantIs_def setMavType_def)
qed

subsection \<open>What the loops preserve\<close>

lemma innerLoop_invariant:
  assumes run: "innerLoop K s = Some r"
    and step: "\<And>s s'. P s \<Longrightarrow> innerGuard K s \<Longrightarrow>
        innerStep K s = Continue s' \<or> innerStep K s = Break s' \<or> innerStep K s = Return s'
        \<Longrightarrow> P s'"
    and init: "P s"
    and res: "r = Finished s' \<or> r = Aborted s'"
  shows "P s'"
proof -
  let ?Q = "\<lambda>K' s r. K' = K \<longrightarrow> P s \<longrightarrow> (\<forall>s'. r = Finished s' \<or> r = Aborted s' \<longrightarrow> P s')"
  have "?Q K s r"
  proof (rule innerLoop.raw_induct [where P = ?Q, OF _ run])
    fix loop K' s r
    assume IH: "\<And>s b y. loop s b = Some y \<Longrightarrow> ?Q s b y"
      and eq: "(if innerGuard K' s
                then case innerStep K' s of Continue s' \<Rightarrow> loop K' s'
                     | Break s' \<Rightarrow> Some (Finished s') | Return s' \<Rightarrow> Some (Aborted s')
                     | OutOfRange \<Rightarrow> Some Crashed
                else Some (Finished s)) = Some r"
    show "?Q K' s r"
    proof (intro impI allI)
      fix s'
      assume k: "K' = K" and p: "P s" and r: "r = Finished s' \<or> r = Aborted s'"
      show "P s'"
      proof (cases "innerGuard K s")
        case False
        with eq k r p show ?thesis by auto
      next
        case True
        show ?thesis
        proof (cases "innerStep K s")
          case (Continue s1)
          with True eq k have "loop K s1 = Some r" by simp
          moreover have "P s1" using step p True Continue by blast
          ultimately show ?thesis using IH r by blast
        next
          case (Break s1)
          with True eq k r have "s' = s1" by auto
          then show ?thesis using step p True Break by blast
        next
          case (Return s1)
          with True eq k r have "s' = s1" by auto
          then show ?thesis using step p True Return by blast
        next
          case OutOfRange
          with True eq k r show ?thesis by auto
        qed
      qed
    qed
  qed
  with init res show ?thesis by blast
qed

lemma outerLoop_invariant:
  assumes run: "outerLoop K s = Some r"
    and step: "\<And>s s'. P s \<Longrightarrow> innerGuard K s \<Longrightarrow>
        innerStep K s = Continue s' \<or> innerStep K s = Break s' \<or> innerStep K s = Return s'
        \<Longrightarrow> P s'"
    and fill: "\<And>s. P s \<Longrightarrow> P (refill K s)"
    and init: "P s"
    and res: "r = Finished s' \<or> r = Aborted s'"
  shows "P s'"
proof -
  let ?Q = "\<lambda>K' s r. K' = K \<longrightarrow> P s \<longrightarrow> (\<forall>s'. r = Finished s' \<or> r = Aborted s' \<longrightarrow> P s')"
  have "?Q K s r"
  proof (rule outerLoop.raw_induct [where P = ?Q, OF _ run])
    fix loop K' s r
    assume IH: "\<And>s b y. loop s b = Some y \<Longrightarrow> ?Q s b y"
      and eq: "(if outerGuard s
                then case innerLoop K' (refill K' s) of None \<Rightarrow> None
                     | Some (Finished s') \<Rightarrow> loop K' s'
                     | Some (Aborted s') \<Rightarrow> Some (Aborted s')
                     | Some Crashed \<Rightarrow> Some Crashed
                else Some (Finished s)) = Some r"
    show "?Q K' s r"
    proof (intro impI allI)
      fix s'
      assume k: "K' = K" and p: "P s" and r: "r = Finished s' \<or> r = Aborted s'"
      show "P s'"
      proof (cases "outerGuard s")
        case False
        with eq r p show ?thesis by auto
      next
        case True
        from True eq k obtain r1 where i: "innerLoop K (refill K s) = Some r1"
          by (auto split: option.splits)
        have pr: "P (refill K s)" using fill p by blast
        have inner: "\<And>s1. r1 = Finished s1 \<or> r1 = Aborted s1 \<Longrightarrow> P s1"
          using innerLoop_invariant [where P = P, OF i _ pr] step by blast
        show ?thesis
        proof (cases r1)
          case (Finished s1)
          with True eq i k have "loop K s1 = Some r" by simp
          moreover have "P s1" using inner Finished by blast
          ultimately show ?thesis using IH r by blast
        next
          case (Aborted s1)
          with True eq i k r have "s' = s1" by auto
          then show ?thesis using inner Aborted by blast
        next
          case Crashed
          with True eq i k r show ?thesis by auto
        qed
      qed
    qed
  qed
  with init res show ?thesis by blast
qed


lemma sinkAnswer_rows:
  "addedRows (snd (sinkAnswer m)) = addedRows m \<and> addedTypes (snd (sinkAnswer m)) = addedTypes m"
  by (simp add: sinkAnswer_def split: list.splits)

lemma endTransaction_rows:
  "addedRows (snd (endTransaction m)) = addedRows m
   \<and> addedTypes (snd (endTransaction m)) = addedTypes m"
  using sinkAnswer_rows [of m]
  by (auto simp: endTransaction_def split: prod.splits bool.splits)

lemma addType_rows:
  assumes "addType t m = (b, m')"
  shows "addedRows m' = addedRows m"
    and "addedTypes m' = (if b then addedTypes m @ [t] else addedTypes m)"
  using assms sinkAnswer_rows [of m]
  by (auto simp: addType_def split: prod.splits bool.splits)

lemma addRow_rows:
  assumes "addRow r m = (b, m')"
  shows "addedRows m' = (if b then addedRows m @ [r] else addedRows m)"
    and "addedTypes m' = addedTypes m"
  using assms sinkAnswer_rows [of m]
  by (auto simp: addRow_def split: prod.splits bool.splits)

lemma storeDescriptor_frame:
  assumes "storeDescriptor K s d = (b, s')"
  shows "m_activeTimestamp s' = m_activeTimestamp s
       \<and> m_possibleTimestamps s' = m_possibleTimestamps s
       \<and> m_descriptorForDeferredStorage s' = m_descriptorForDeferredStorage s
       \<and> m_lastValidTimeStamp s' = m_lastValidTimeStamp s
       \<and> addedRows (m_dataModel s') = addedRows (m_dataModel s)
       \<and> m_dataBlock s' = m_dataBlock s \<and> m_dataPos s' = m_dataPos s
       \<and> logfile s' = logfile s \<and> m_stop s' = m_stop s"
  using assms
  by (auto simp: storeDescriptor_def Let_def endTransaction_rows
      split: if_splits prod.splits bool.splits dest: addType_rows(1))

lemma storeDescriptor_registry:
  assumes "storeDescriptor K s d = (b, s')"
  shows "m_typeToDescriptorMap s' =
           (if isValid K d \<and> m_typeToDescriptorMap s (m_ID d) = None
            then (m_typeToDescriptorMap s)(m_ID d \<mapsto> d) else m_typeToDescriptorMap s)"
  using assms
  by (auto simp: storeDescriptor_def Let_def split: if_splits prod.splits bool.splits)


lemma indexOf_None_iff: "indexOf xs x = None \<longleftrightarrow> x \<notin> set xs"
  by (induction xs) auto

lemma indexOf_Some:
  "indexOf xs x = Some i \<Longrightarrow> i < length xs \<and> xs ! i = x \<and> (\<forall>j<i. xs ! j \<noteq> x)"
proof (induction xs arbitrary: i)
  case Nil
  then show ?case by simp
next
  case (Cons y ys)
  show ?case
  proof (cases "y = x")
    case True
    with Cons.prems show ?thesis by simp
  next
    case False
    with Cons.prems obtain i' where i': "indexOf ys x = Some i'" "i = Suc i'" by auto
    from Cons.IH [OF i'(1)] False i'(2) show ?thesis
      by (auto simp: nth_Cons split: nat.splits)
  qed
qed

lemma map_of_indexOf:
  "indexOf (map fst xs) k = Some i \<Longrightarrow> map_of xs k = Some (snd (xs ! i))"
proof (induction xs arbitrary: i)
  case Nil
  then show ?case by simp
next
  case (Cons p ps)
  then show ?case by (cases p) (auto split: if_splits)
qed

lemma descriptorFinal_finalize: "\<not> m_hasTimeStamp d \<Longrightarrow> descriptorFinal a (finalize a d)"
  by (simp add: descriptorFinal_def finalize_def split: option.splits)

lemma replaceLabelName_flag [simp]:
  "m_hasTimeStamp (replaceLabelName a b d) = m_hasTimeStamp d"
  by (simp add: replaceLabelName_def split: option.splits)

lemma parseFMTMessage_frame:
  assumes "parseFMTMessage s d0 = Some (b, s1, d)"
  shows "m_hasTimeStamp d = m_hasTimeStamp d0
       \<and> m_activeTimestamp s1 = m_activeTimestamp s
       \<and> m_possibleTimestamps s1 = m_possibleTimestamps s
       \<and> m_typeToDescriptorMap s1 = m_typeToDescriptorMap s
       \<and> m_descriptorForDeferredStorage s1 = m_descriptorForDeferredStorage s
       \<and> m_lastValidTimeStamp s1 = m_lastValidTimeStamp s
       \<and> m_dataModel s1 = m_dataModel s
       \<and> logfile s1 = logfile s \<and> m_stop s1 = m_stop s"
  using assms
  by (auto simp: parseFMTMessage_def Let_def split: option.splits if_splits)

lemma parserOK_cong:
  assumes "m_activeTimestamp s' = m_activeTimestamp s"
    and "m_possibleTimestamps s' = m_possibleTimestamps s"
    and "m_typeToDescriptorMap s' = m_typeToDescriptorMap s"
    and "m_descriptorForDeferredStorage s' = m_descriptorForDeferredStorage s"
    and "m_lastValidTimeStamp s' = m_lastValidTimeStamp s"
    and "addedRows (m_dataModel s') = addedRows (m_dataModel s)"
  shows "parserOK n K s' = parserOK n K s"
  by (simp add: parserOK_def candidatesOK_def registryOK_def queueOK_def rowsOK_def assms)

lemma storeDescriptor_OK:
  assumes ok: "parserOK n K s" and v: "ts_valid (m_activeTimestamp s)"
    and f: "descriptorFinal (m_activeTimestamp s) d"
    and st: "storeDescriptor K s d = (b, s')"
  shows "parserOK n K s'"
proof -
  note fr = storeDescriptor_frame [OF st] and rg = storeDescriptor_registry [OF st]
  have c: "candidatesOK s'" using ok fr by (simp add: parserOK_def candidatesOK_def)
  have q: "queueOK s'" using ok fr by (simp add: parserOK_def queueOK_def)
  have r: "rowsOK n K s'" using ok fr by (simp add: parserOK_def rowsOK_def)
  have g: "registryOK K s'"
    using ok v f fr unfolding parserOK_def registryOK_def rg
    by (auto split: if_splits)
  from c q r g show ?thesis by (simp add: parserOK_def)
qed

lemma storeDeferred_frame:
  "storeDeferred K ds rc s = (b, s') \<Longrightarrow>
     m_activeTimestamp s' = m_activeTimestamp s
   \<and> m_possibleTimestamps s' = m_possibleTimestamps s
   \<and> m_descriptorForDeferredStorage s' = m_descriptorForDeferredStorage s
   \<and> m_lastValidTimeStamp s' = m_lastValidTimeStamp s
   \<and> addedRows (m_dataModel s') = addedRows (m_dataModel s)
   \<and> m_dataBlock s' = m_dataBlock s \<and> m_dataPos s' = m_dataPos s
   \<and> logfile s' = logfile s \<and> m_stop s' = m_stop s"
proof (induction ds arbitrary: rc s)
  case Nil
  then show ?case by simp
next
  case (Cons d ds)
  obtain b1 s1 where s1: "storeDescriptor K s d = (b1, s1)" by (cases "storeDescriptor K s d")
  with Cons.prems have "storeDeferred K ds (rc \<and> b1) s1 = (b, s')" by simp
  from Cons.IH [OF this] storeDescriptor_frame [OF s1] show ?case by simp
qed

lemma storeDeferred_OK:
  "parserOK n K s \<Longrightarrow> ts_valid (m_activeTimestamp s) \<Longrightarrow>
   \<forall>q \<in> set ds. descriptorFinal (m_activeTimestamp s) q \<Longrightarrow>
   storeDeferred K ds rc s = (b, s') \<Longrightarrow> parserOK n K s'"
proof (induction ds arbitrary: rc s)
  case Nil
  then show ?case by simp
next
  case (Cons d ds)
  obtain b1 s1 where s1: "storeDescriptor K s d = (b1, s1)" by (cases "storeDescriptor K s d")
  with Cons.prems have run: "storeDeferred K ds (rc \<and> b1) s1 = (b, s')" by simp
  have ok1: "parserOK n K s1" using storeDescriptor_OK [OF Cons.prems(1,2) _ s1] Cons.prems(3) by simp
  have a1: "m_activeTimestamp s1 = m_activeTimestamp s" using storeDescriptor_frame [OF s1] by simp
  show ?case using Cons.IH [OF ok1 _ _ run] Cons.prems(2,3) a1 by simp
qed

lemma extendedStoreDescriptor_frame:
  assumes "extendedStoreDescriptor K s d = (b, s')"
  shows "m_activeTimestamp s' = m_activeTimestamp s
       \<and> m_possibleTimestamps s' = m_possibleTimestamps s
       \<and> m_descriptorForDeferredStorage s' = []
       \<and> m_lastValidTimeStamp s' = m_lastValidTimeStamp s
       \<and> addedRows (m_dataModel s') = addedRows (m_dataModel s)
       \<and> m_dataBlock s' = m_dataBlock s \<and> m_dataPos s' = m_dataPos s
       \<and> logfile s' = logfile s \<and> m_stop s' = m_stop s"
proof -
  obtain rc s1 where s1: "storeDeferred K (m_descriptorForDeferredStorage s) True s = (rc, s1)"
    by (cases "storeDeferred K (m_descriptorForDeferredStorage s) True s")
  note f1 = storeDeferred_frame [OF s1]
  show ?thesis
  proof (cases rc)
    case True
    with assms s1 have "storeDescriptor K (s1\<lparr>m_descriptorForDeferredStorage := []\<rparr>) d = (b, s')"
      by (simp add: extendedStoreDescriptor_def)
    from storeDescriptor_frame [OF this] f1 show ?thesis by simp
  next
    case False
    with assms s1 have "s' = s1\<lparr>m_descriptorForDeferredStorage := []\<rparr>"
      by (simp add: extendedStoreDescriptor_def)
    with f1 show ?thesis by simp
  qed
qed

lemma parserOK_clear_queue:
  "parserOK n K s \<Longrightarrow> parserOK n K (s\<lparr>m_descriptorForDeferredStorage := []\<rparr>)"
  by (simp add: parserOK_def candidatesOK_def registryOK_def queueOK_def rowsOK_def)

lemma extendedStoreDescriptor_OK:
  assumes ok: "parserOK n K s" and v: "ts_valid (m_activeTimestamp s)"
    and f: "descriptorFinal (m_activeTimestamp s) d"
    and st: "extendedStoreDescriptor K s d = (b, s')"
  shows "parserOK n K s'"
proof -
  obtain rc s1 where s1: "storeDeferred K (m_descriptorForDeferredStorage s) True s = (rc, s1)"
    by (cases "storeDeferred K (m_descriptorForDeferredStorage s) True s")
  have q: "\<forall>q \<in> set (m_descriptorForDeferredStorage s). descriptorFinal (m_activeTimestamp s) q"
    using ok v by (simp add: parserOK_def queueOK_def)
  have ok1: "parserOK n K s1" by (rule storeDeferred_OK [OF ok v q s1])
  have a1: "m_activeTimestamp s1 = m_activeTimestamp s" using storeDeferred_frame [OF s1] by simp
  let ?s2 = "s1\<lparr>m_descriptorForDeferredStorage := []\<rparr>"
  have ok2: "parserOK n K ?s2" by (rule parserOK_clear_queue [OF ok1])
  show ?thesis
  proof (cases rc)
    case True
    with st s1 have "storeDescriptor K ?s2 d = (b, s')" by (simp add: extendedStoreDescriptor_def)
    from storeDescriptor_OK [OF ok2 _ _ this] v f a1 show ?thesis by simp
  next
    case False
    with st s1 have "s' = ?s2" by (simp add: extendedStoreDescriptor_def)
    with ok2 show ?thesis by simp
  qed
qed

lemma firstTimestampIn_None:
  "firstTimestampIn cs labels = None \<Longrightarrow> \<forall>c \<in> set cs. ts_name c \<notin> set labels"
  by (induction cs) (auto split: if_splits)

lemma firstTimestampIn_Some:
  "firstTimestampIn cs labels = Some t \<Longrightarrow> t \<in> set cs \<and> ts_name t \<in> set labels"
  by (induction cs) (auto split: if_splits)

lemma checkForValidTimestamp_OK:
  assumes ok: "parserOK n K s" and v: "\<not> ts_valid (m_activeTimestamp s)"
    and fresh: "\<not> m_hasTimeStamp d"
  shows "parserOK n K (checkForValidTimestamp s d)"
proof (cases "firstTimestampIn (m_possibleTimestamps s) (m_labels d)")
  case None
  from firstTimestampIn_None [OF None] ok v fresh show ?thesis
    by (simp add: checkForValidTimestamp_def None parserOK_def candidatesOK_def registryOK_def
        queueOK_def rowsOK_def)
next
  case (Some t)
  from firstTimestampIn_Some [OF Some] have t: "t \<in> set (m_possibleTimestamps s)" by simp
  with ok have tv: "ts_valid t" by (auto simp: parserOK_def candidatesOK_def list_all_iff)
  have old: "\<forall>q \<in> set (m_descriptorForDeferredStorage s). descriptorFinal t q"
    using ok v t by (auto simp: parserOK_def queueOK_def descriptorFinal_def indexOf_None_iff)
  from ok v t tv old descriptorFinal_finalize [OF fresh, of t] show ?thesis
    by (simp add: checkForValidTimestamp_def Some parserOK_def candidatesOK_def registryOK_def
        queueOK_def rowsOK_def)
qed

lemma parseFMTRecord_OK:
  assumes ok: "parserOK n K s"
    and st: "parseFMTRecord K s = Continue s' \<or> parseFMTRecord K s = Break s'
           \<or> parseFMTRecord K s = Return s'"
  shows "parserOK n K s'"
proof (cases "parseFMTMessage s typeDescriptor_init")
  case None
  with st show ?thesis by (simp add: parseFMTRecord_def)
next
  case (Some r)
  then obtain b s1 d where r: "parseFMTMessage s typeDescriptor_init = Some (b, s1, d)"
    by (cases r) auto
  note fr = parseFMTMessage_frame [OF r]
  have ok1: "parserOK n K s1" using ok parserOK_cong [of s1 s n K] fr by simp
  have fresh: "\<not> m_hasTimeStamp d" using fr by (simp add: typeDescriptor_init_def)
  show ?thesis
  proof (cases b)
    case False
    with st r ok1 show ?thesis by (simp add: parseFMTRecord_def)
  next
    case True
    let ?d1 = "if m_name d = ''GPS'' then replaceLabelName ''TimeMS'' ''GPSTimeMS'' d else d"
    have fresh1: "\<not> m_hasTimeStamp ?d1" using fresh by simp
    show ?thesis
    proof (cases "ts_valid (m_activeTimestamp s1)")
      case v: True
      obtain b2 s2 where e: "extendedStoreDescriptor K s1 (finalize (m_activeTimestamp s1) ?d1) = (b2, s2)"
        by (cases "extendedStoreDescriptor K s1 (finalize (m_activeTimestamp s1) ?d1)")
      have "parserOK n K s2"
        by (rule extendedStoreDescriptor_OK [OF ok1 v descriptorFinal_finalize [OF fresh1] e])
      moreover have "s' = s2" using st r True v e
        by (cases b2) (simp_all add: parseFMTRecord_def Let_def)
      ultimately show ?thesis by simp
    next
      case v: False
      have "s' = checkForValidTimestamp s1 ?d1" using st r True v
        by (simp add: parseFMTRecord_def Let_def)
      with checkForValidTimestamp_OK [OF ok1 v fresh1] show ?thesis by simp
    qed
  qed
qed


lemma decodeFields_labels:
  "decodeFields d fmt i st acc = (nvl, inc) \<Longrightarrow>
     (inc = None \<longrightarrow> map fst nvl = map fst acc @ map (getLabelAtIndex d) [i..<i + length fmt])
   \<and> (inc \<noteq> None \<longrightarrow> nvl = [])"
proof (induction fmt arbitrary: i st acc)
  case Nil
  then show ?case by auto
next
  case (Cons c cs)
  show ?case
  proof (cases "decodeField c st")
    case (Field v st')
    with Cons.prems have
      "decodeFields d cs (i + 1) st' (acc @ [(getLabelAtIndex d i, v)]) = (nvl, inc)" by simp
    moreover have "[i..<i + length (c # cs)] = i # [i + 1..<i + 1 + length cs]"
      using upt_conv_Cons [of i "i + length (c # cs)"] by (simp del: upt_Suc)
    ultimately show ?thesis using Cons.IH by fastforce
  next
    case NaNFound
    with Cons.prems show ?thesis by auto
  next
    case UnknownType
    with Cons.prems show ?thesis by auto
  qed
qed

lemma parseDataByDescriptor_frame:
  assumes "parseDataByDescriptor s d = (b, s1, nvl)"
  shows "m_activeTimestamp s1 = m_activeTimestamp s
       \<and> m_possibleTimestamps s1 = m_possibleTimestamps s
       \<and> m_typeToDescriptorMap s1 = m_typeToDescriptorMap s
       \<and> m_descriptorForDeferredStorage s1 = m_descriptorForDeferredStorage s
       \<and> m_lastValidTimeStamp s1 = m_lastValidTimeStamp s
       \<and> m_dataModel s1 = m_dataModel s
       \<and> logfile s1 = logfile s \<and> m_stop s1 = m_stop s"
  using assms
  by (auto simp: parseDataByDescriptor_def Let_def split: if_splits prod.splits)

lemma parseDataByDescriptor_labels:
  assumes "parseDataByDescriptor s d = (b, s1, nvl)" and "nvl \<noteq> []"
  shows "map fst nvl = map (getLabelAtIndex d) [0..<length (m_format d)]"
proof -
  from assms obtain data inc where
    "decodeFields d (m_format d) 0 data [] = (nvl, inc)"
    by (auto simp: parseDataByDescriptor_def Let_def split: if_splits prod.splits)
  from decodeFields_labels [OF this] assms(2) show ?thesis by auto
qed

lemma labels_of_valid:
  assumes "isValid K d" and "m_ID d \<noteq> s_FMTMessageType"
  shows "map (getLabelAtIndex d) [0..<length (m_format d)] = m_labels d"
proof -
  from assms have "length (m_format d) = length (m_labels d)"
    by (auto simp: isValid_def split: if_splits)
  then show ?thesis by (auto simp: getLabelAtIndex_def intro!: nth_equalityI)
qed

lemma readTimeStamp_time:
  assumes lab: "indexOf (map fst nvl) name = Some idx"
    and rd: "readTimeStamp K s nvl idx = Some (s1, list1)"
  shows "map_of list1 name = Some (snd (list1 ! idx))
       \<and> toULongLong K (snd (list1 ! idx)) = m_lastValidTimeStamp s1
       \<and> m_lastValidTimeStamp s \<le> m_lastValidTimeStamp s1
       \<and> m_activeTimestamp s1 = m_activeTimestamp s
       \<and> m_possibleTimestamps s1 = m_possibleTimestamps s
       \<and> m_typeToDescriptorMap s1 = m_typeToDescriptorMap s
       \<and> m_descriptorForDeferredStorage s1 = m_descriptorForDeferredStorage s
       \<and> m_dataModel s1 = m_dataModel s
       \<and> m_dataBlock s1 = m_dataBlock s \<and> m_dataPos s1 = m_dataPos s
       \<and> logfile s1 = logfile s \<and> m_stop s1 = m_stop s"
proof -
  from indexOf_Some [OF lab] have i: "idx < length nvl" and l: "fst (nvl ! idx) = name" by auto
  show ?thesis
  proof (cases "toULongLong K (snd (nvl ! idx)) \<ge> m_lastValidTimeStamp s")
    case True
    with rd i have "s1 = s\<lparr>m_lastValidTimeStamp := toULongLong K (snd (nvl ! idx))\<rparr>" "list1 = nvl"
      by (auto simp: readTimeStamp_def Let_def)
    with True map_of_indexOf [OF lab] show ?thesis by simp
  next
    case False
    with rd i have l1: "list1 = nvl[idx := (fst (nvl ! idx), VUInt (m_lastValidTimeStamp s))]"
      and s1: "m_lastValidTimeStamp s1 = m_lastValidTimeStamp s"
        "m_activeTimestamp s1 = m_activeTimestamp s"
        "m_possibleTimestamps s1 = m_possibleTimestamps s"
        "m_typeToDescriptorMap s1 = m_typeToDescriptorMap s"
        "m_descriptorForDeferredStorage s1 = m_descriptorForDeferredStorage s"
        "m_dataModel s1 = m_dataModel s"
        "m_dataBlock s1 = m_dataBlock s" "m_dataPos s1 = m_dataPos s"
        "logfile s1 = logfile s" "m_stop s1 = m_stop s"
      by (auto simp: readTimeStamp_def Let_def)
    have "map fst list1 = map fst nvl" using i
      by (auto simp: l1 nth_list_update intro!: nth_equalityI)
    with lab have "indexOf (map fst list1) name = Some idx" by simp
    from map_of_indexOf [OF this] l1 i s1 show ?thesis by (simp add: toULongLong_def)
  qed
qed

lemma rowsOK_append:
  assumes "rowsOK n K s" and "addedRows (m_dataModel s') = addedRows (m_dataModel s) @ [r]"
    and "rowTime K r = m_lastValidTimeStamp s'"
    and "m_lastValidTimeStamp s \<le> m_lastValidTimeStamp s'"
  shows "rowsOK n K s'"
  using assms by (auto simp: rowsOK_def sorted_append)

lemma rowsOK_same:
  assumes "rowsOK n K s" and "addedRows (m_dataModel s') = addedRows (m_dataModel s)"
    and "m_lastValidTimeStamp s \<le> m_lastValidTimeStamp s'"
  shows "rowsOK n K s'"
  using assms by (auto simp: rowsOK_def)

lemma storeNameValuePairList_OK:
  assumes ok: "parserOK n K s"
    and lab: "m_hasTimeStamp d \<longrightarrow>
                indexOf (map fst nvl) (ts_name (m_activeTimestamp s)) = Some (m_timeStampIndex d)"
    and st: "storeNameValuePairList K s nvl d = Some (b, s', list')"
  shows "parserOK n K s'
       \<and> m_dataBlock s' = m_dataBlock s \<and> m_dataPos s' = m_dataPos s
       \<and> logfile s' = logfile s \<and> m_stop s' = m_stop s
       \<and> m_typeToDescriptorMap s' = m_typeToDescriptorMap s"
proof -
  let ?name = "ts_name (m_activeTimestamp s)"
  obtain s1 list1 where pre:
    "(if hasNoTimestamp d then Some (s, (?name, VUInt (m_lastValidTimeStamp s)) # nvl)
      else readTimeStamp K s nvl (m_timeStampIndex d)) = Some (s1, list1)"
    using st by (auto simp: storeNameValuePairList_def split: option.splits)
  have t: "map_of list1 ?name = Some (snd (list1 ! (if hasNoTimestamp d then 0 else m_timeStampIndex d)))
       \<and> toULongLong K (snd (list1 ! (if hasNoTimestamp d then 0 else m_timeStampIndex d)))
           = m_lastValidTimeStamp s1
       \<and> m_lastValidTimeStamp s \<le> m_lastValidTimeStamp s1
       \<and> m_activeTimestamp s1 = m_activeTimestamp s
       \<and> m_possibleTimestamps s1 = m_possibleTimestamps s
       \<and> m_typeToDescriptorMap s1 = m_typeToDescriptorMap s
       \<and> m_descriptorForDeferredStorage s1 = m_descriptorForDeferredStorage s
       \<and> m_dataModel s1 = m_dataModel s
       \<and> m_dataBlock s1 = m_dataBlock s \<and> m_dataPos s1 = m_dataPos s
       \<and> logfile s1 = logfile s \<and> m_stop s1 = m_stop s"
  proof (cases "hasNoTimestamp d")
    case True
    with pre show ?thesis by (auto simp: toULongLong_def)
  next
    case False
    with pre have rd: "readTimeStamp K s nvl (m_timeStampIndex d) = Some (s1, list1)" by simp
    from False lab have "indexOf (map fst nvl) ?name = Some (m_timeStampIndex d)"
      by (simp add: hasNoTimestamp_def)
    from readTimeStamp_time [OF this rd] False show ?thesis by simp
  qed
  let ?r = "(m_name d, list1, ts_name (m_activeTimestamp s1))"
  have rt: "rowTime K ?r = m_lastValidTimeStamp s1" using t by (simp add: rowTime_def)
  obtain b2 m2 where ar: "addRow ?r (m_dataModel s1) = (b2, m2)"
    by (cases "addRow ?r (m_dataModel s1)")
  note rows = addRow_rows(1) [OF ar]
  have s': "m_activeTimestamp s' = m_activeTimestamp s
       \<and> m_possibleTimestamps s' = m_possibleTimestamps s
       \<and> m_typeToDescriptorMap s' = m_typeToDescriptorMap s
       \<and> m_descriptorForDeferredStorage s' = m_descriptorForDeferredStorage s
       \<and> m_lastValidTimeStamp s' = m_lastValidTimeStamp s1
       \<and> addedRows (m_dataModel s') = (if b2 then addedRows (m_dataModel s) @ [?r]
                                        else addedRows (m_dataModel s))
       \<and> m_dataBlock s' = m_dataBlock s \<and> m_dataPos s' = m_dataPos s
       \<and> logfile s' = logfile s \<and> m_stop s' = m_stop s"
    using st pre ar rows t
    by (cases b2) (auto simp: storeNameValuePairList_def endTransaction_rows)
  have r: "rowsOK n K s'"
  proof (cases b2)
    case True
    show ?thesis
      by (rule rowsOK_append [where r = ?r and s = s]) (use ok s' t rt True in \<open>auto simp: parserOK_def\<close>)
  next
    case False
    show ?thesis
      by (rule rowsOK_same [where s = s]) (use ok s' t False in \<open>auto simp: parserOK_def\<close>)
  qed
  from ok s' have "candidatesOK s'" "registryOK K s'" "queueOK s'"
    by (simp_all add: parserOK_def candidatesOK_def registryOK_def queueOK_def)
  with r s' show ?thesis by (simp add: parserOK_def)
qed


lemma detectMavType_frame:
  assumes "detectMavType s vpl = Some s'"
  shows "m_activeTimestamp s' = m_activeTimestamp s
       \<and> m_possibleTimestamps s' = m_possibleTimestamps s
       \<and> m_typeToDescriptorMap s' = m_typeToDescriptorMap s
       \<and> m_descriptorForDeferredStorage s' = m_descriptorForDeferredStorage s
       \<and> m_lastValidTimeStamp s' = m_lastValidTimeStamp s
       \<and> m_dataModel s' = m_dataModel s
       \<and> m_dataBlock s' = m_dataBlock s \<and> m_dataPos s' = m_dataPos s
       \<and> logfile s' = logfile s \<and> m_stop s' = m_stop s"
  using assms by (auto simp: detectMavType_def Let_def split: if_splits)

lemma storeNameValuePairList_frame:
  assumes "storeNameValuePairList K s nvl d = Some (b, s', list')"
  shows "m_activeTimestamp s' = m_activeTimestamp s
       \<and> m_possibleTimestamps s' = m_possibleTimestamps s
       \<and> m_typeToDescriptorMap s' = m_typeToDescriptorMap s
       \<and> m_descriptorForDeferredStorage s' = m_descriptorForDeferredStorage s
       \<and> m_dataBlock s' = m_dataBlock s \<and> m_dataPos s' = m_dataPos s
       \<and> logfile s' = logfile s \<and> m_stop s' = m_stop s"
  using assms
  by (auto simp: storeNameValuePairList_def readTimeStamp_def Let_def
      split: if_splits option.splits prod.splits bool.splits)

lemma parseDataRecord_cases:
  assumes "parseDataRecord K s d = Continue s' \<or> parseDataRecord K s d = Break s'
         \<or> parseDataRecord K s d = Return s'"
  obtains (short) nvl where "parseDataByDescriptor s d = (False, s', nvl)"
  | (empty) s1 where "parseDataByDescriptor s d = (True, s1, [])"
      "s' = s1\<lparr>m_logLoadingState :=
                corruptDataRead (m_MessageCounter s1) NoValues (m_logLoadingState s1)\<rparr>"
      "parseDataRecord K s d = Continue s'"
  | (stored) s1 nvl b list2 where "parseDataByDescriptor s d = (True, s1, nvl)" "nvl \<noteq> []"
      "storeNameValuePairList K s1 nvl d = Some (b, s', list2)"
  | (kind) s1 nvl s2 list2 where "parseDataByDescriptor s d = (True, s1, nvl)" "nvl \<noteq> []"
      "storeNameValuePairList K s1 nvl d = Some (True, s2, list2)"
      "detectMavType s2 list2 = Some s'"
proof -
  obtain b s1 nvl where p: "parseDataByDescriptor s d = (b, s1, nvl)"
    by (cases "parseDataByDescriptor s d") auto
  show thesis
  proof (cases b)
    case False
    with assms p short show ?thesis by (auto simp: parseDataRecord_def)
  next
    case True
    show ?thesis
    proof (cases "nvl = []")
      case e: True
      with assms p True empty show ?thesis by (auto simp: parseDataRecord_def)
    next
      case ne: False
      then have l: "length nvl \<ge> 1" by (cases nvl) auto
      show ?thesis
      proof (cases "storeNameValuePairList K s1 nvl d")
        case None
        with assms p True l show ?thesis by (auto simp: parseDataRecord_def)
      next
        case (Some r)
        then obtain b2 s2 list2 where r: "storeNameValuePairList K s1 nvl d = Some (b2, s2, list2)"
          by (cases r) auto
        show ?thesis
        proof (cases "b2 \<and> m_loadedLogType s2 = MAV_TYPE_GENERIC \<and> m_name d = ''PARM''")
          case False
          with assms p True l r have "s' = s2"
            by (cases b2) (auto simp: parseDataRecord_def)
          with p True ne r stored show ?thesis by auto
        next
          case k: True
          with assms p True l r obtain s3 where "detectMavType s2 list2 = Some s3" "s' = s3"
            by (auto simp: parseDataRecord_def split: option.splits)
          with p True ne r k kind show ?thesis by auto
        qed
      qed
    qed
  qed
qed

lemma parseDataRecord_OK:
  assumes ok: "parserOK n K s"
    and reg: "m_typeToDescriptorMap s k = Some d" and kn: "k \<noteq> s_FMTMessageType"
    and st: "parseDataRecord K s d = Continue s' \<or> parseDataRecord K s d = Break s'
           \<or> parseDataRecord K s d = Return s'"
  shows "parserOK n K s'"
proof -
  from ok reg have d: "isValid K d" "m_ID d = k" "descriptorFinal (m_activeTimestamp s) d"
    by (auto simp: parserOK_def registryOK_def)
  have lab: "m_hasTimeStamp d \<longrightarrow>
      indexOf (map fst nvl) (ts_name (m_activeTimestamp s1)) = Some (m_timeStampIndex d)"
    if "parseDataByDescriptor s d = (True, s1, nvl)" "nvl \<noteq> []" for s1 nvl
  proof -
    have "map fst nvl = m_labels d"
      using parseDataByDescriptor_labels [OF that] labels_of_valid [OF d(1)] d(2) kn by simp
    with d(3) parseDataByDescriptor_frame [OF that(1)] show ?thesis
      by (simp add: descriptorFinal_def)
  qed
  have ok1: "parserOK n K s1" if "parseDataByDescriptor s d = (b, s1, nvl)" for b s1 nvl
    using ok parserOK_cong [of s1 s n K] parseDataByDescriptor_frame [OF that] by simp
  from st show ?thesis
  proof (cases rule: parseDataRecord_cases)
    case (short nvl)
    then show ?thesis by (rule ok1)
  next
    case (empty s1)
    from ok1 [OF empty(1)] show ?thesis
      unfolding empty(2) by (simp add: parserOK_def candidatesOK_def registryOK_def queueOK_def rowsOK_def)
  next
    case (stored s1 nvl b list2)
    from storeNameValuePairList_OK [OF ok1 [OF stored(1)] lab [OF stored(1,2)] stored(3)]
    show ?thesis by simp
  next
    case (kind s1 nvl s2 list2)
    from storeNameValuePairList_OK [OF ok1 [OF kind(1)] lab [OF kind(1,2)] kind(3)]
    have "parserOK n K s2" by simp
    with parserOK_cong [of s' s2 n K] detectMavType_frame [OF kind(4)] show ?thesis by simp
  qed
qed

lemma headerIsValid_frame:
  assumes "headerIsValid s = Some (b, s1)"
  shows "\<exists>p t. s1 = s\<lparr>m_dataPos := p, m_messageType := t\<rparr>
       \<and> m_dataPos s < p \<and> p \<le> length (m_dataBlock s) \<and> (b \<longrightarrow> p = m_dataPos s + 3)"
  using assms
  by (auto simp: headerIsValid_def byteAt_def split: option.splits if_splits)

lemma innerStep_OK:
  assumes ok: "parserOK n K s"
    and st: "innerStep K s = Continue s' \<or> innerStep K s = Break s' \<or> innerStep K s = Return s'"
  shows "parserOK n K s'"
proof (cases "headerIsValid s")
  case None
  with st show ?thesis by (simp add: innerStep_def)
next
  case (Some r)
  then obtain b s1 where h: "headerIsValid s = Some (b, s1)" by (cases r) auto
  from headerIsValid_frame [OF h] obtain p t where
    s1: "s1 = s\<lparr>m_dataPos := p, m_messageType := t\<rparr>" by blast
  have ok1: "parserOK n K s1" using ok parserOK_cong [of s1 s n K] s1 by simp
  show ?thesis
  proof (cases b)
    case False
    with st h have "s' = s1\<lparr>noMessageBytes := noMessageBytes s1 + 1\<rparr>"
      by (auto simp: innerStep_def)
    with ok1 parserOK_cong [of s' s1 n K] show ?thesis by simp
  next
    case True
    show ?thesis
    proof (cases "m_messageType s1 = s_FMTMessageType")
      case f: True
      with st h True have "parseFMTRecord K s1 = Continue s' \<or> parseFMTRecord K s1 = Break s'
           \<or> parseFMTRecord K s1 = Return s'" by (simp add: innerStep_def)
      from parseFMTRecord_OK [OF ok1 this] show ?thesis .
    next
      case f: False
      show ?thesis
      proof (cases "m_typeToDescriptorMap s1 (m_messageType s1)")
        case None
        with st h True f have "s' = s1\<lparr>m_logLoadingState :=
            corruptDataRead (m_MessageCounter s1) (NoDescriptor (m_messageType s1))
              (m_logLoadingState s1)\<rparr>"
          by (auto simp: innerStep_def)
        with ok1 parserOK_cong [of s' s1 n K] show ?thesis by simp
      next
        case (Some d)
        with st h True f have "parseDataRecord K s1 d = Continue s'
          \<or> parseDataRecord K s1 d = Break s' \<or> parseDataRecord K s1 d = Return s'"
          by (simp add: innerStep_def)
        from parseDataRecord_OK [OF ok1 Some f this] show ?thesis .
      qed
    qed
  qed
qed

lemma refill_OK: "parserOK n K s \<Longrightarrow> parserOK n K (refill K s)"
  using parserOK_cong [of "refill K s" s n K] by (simp add: refill_def)


lemma outerLoop_OK:
  assumes "outerLoop K s = Some r" and "parserOK n K s" and "r = Finished s' \<or> r = Aborted s'"
  shows "parserOK n K s'"
  by (rule outerLoop_invariant [where P = "parserOK n K", OF assms(1) _ _ assms(2,3)])
     (auto intro: innerStep_OK refill_OK)

lemma startTransaction_rows:
  "addedRows (snd (startTransaction m)) = addedRows m"
  using sinkAnswer_rows [of m]
  by (auto simp: startTransaction_def split: prod.splits bool.splits)

lemma parse_cases:
  assumes "parse K s = Some r" and "r = Finished s' \<or> r = Aborted s'"
  obtains (null) "s' = s"
  | (start) m where "startTransaction (m_dataModel s) = (False, m)"
      "s' = s\<lparr>m_dataModel := m, m_callbackObject := onError (m_callbackObject s)\<rparr>"
  | (aborted) m where "startTransaction (m_dataModel s) = (True, m)"
      "outerLoop K (s\<lparr>m_dataModel := m, noMessageBytes := 0\<rparr>) = Some (Aborted s')"
  | (finished) m s1 b m' where "startTransaction (m_dataModel s) = (True, m)"
      "outerLoop K (s\<lparr>m_dataModel := m, noMessageBytes := 0\<rparr>) = Some (Finished s1)"
      "endTransaction (m_dataModel s1) = (b, m')"
      "m_activeTimestamp s' = m_activeTimestamp s1"
      "m_possibleTimestamps s' = m_possibleTimestamps s1"
      "m_typeToDescriptorMap s' = m_typeToDescriptorMap s1"
      "m_descriptorForDeferredStorage s' = m_descriptorForDeferredStorage s1"
      "m_lastValidTimeStamp s' = m_lastValidTimeStamp s1"
      "addedRows (m_dataModel s') = addedRows (m_dataModel s1)"
      "logfile s' = logfile s1" "m_stop s' = m_stop s1"
proof (cases "dataModelIsNull s \<or> callbackIsNull s")
  case True
  with assms null show ?thesis by (auto simp: parse_def)
next
  case nn: False
  obtain b m where st: "startTransaction (m_dataModel s) = (b, m)"
    by (cases "startTransaction (m_dataModel s)")
  show ?thesis
  proof (cases b)
    case False
    with assms nn st start show ?thesis by (auto simp: parse_def)
  next
    case True
    let ?s0 = "s\<lparr>m_dataModel := m, noMessageBytes := 0\<rparr>"
    from assms nn st True obtain r1 where o: "outerLoop K ?s0 = Some r1"
      by (auto simp: parse_def split: option.splits)
    show ?thesis
    proof (cases r1)
      case (Aborted s1)
      with assms nn st True o aborted show ?thesis by (auto simp: parse_def)
    next
      case Crashed
      with assms nn st True o show ?thesis by (auto simp: parse_def)
    next
      case (Finished s1)
      obtain b' m' where e: "endTransaction (m_dataModel
          (if noMessageBytes s1 > 0
           then s1\<lparr>m_logLoadingState := setNoMessageBytes (noMessageBytes s1) (m_logLoadingState s1)\<rparr>
           else s1)) = (b', m')"
        by (cases "endTransaction (m_dataModel
          (if noMessageBytes s1 > 0
           then s1\<lparr>m_logLoadingState := setNoMessageBytes (noMessageBytes s1) (m_logLoadingState s1)\<rparr>
           else s1))")
      then have e1: "endTransaction (m_dataModel s1) = (b', m')" by (simp split: if_splits)
      have rows: "addedRows m' = addedRows (m_dataModel s1)"
        using endTransaction_rows [of "m_dataModel s1"] e1 by simp
      have st': "startTransaction (m_dataModel s) = (True, m)" using st True by simp
      have o': "outerLoop K ?s0 = Some (Finished s1)" using o Finished by simp
      show ?thesis
        using assms nn st' o' e rows
        by (intro finished [OF st' o' e1])
           (auto simp: parse_def Let_def setAllRowsHaveTime_def split: if_splits bool.splits)
    qed
  qed
qed

lemma parse_OK:
  assumes run: "parse K s = Some r" and ok: "parserOK n K s"
    and res: "r = Finished s' \<or> r = Aborted s'"
  shows "parserOK n K s'"
  using run res
proof (cases rule: parse_cases)
  case null
  with ok show ?thesis by simp
next
  case (start m)
  have "addedRows m = addedRows (m_dataModel s)"
    using startTransaction_rows [of "m_dataModel s"] start(1) by simp
  with ok parserOK_cong [of s' s n K] start(2) show ?thesis by simp
next
  case (aborted m)
  have "addedRows m = addedRows (m_dataModel s)"
    using startTransaction_rows [of "m_dataModel s"] aborted(1) by simp
  with ok parserOK_cong [of "s\<lparr>m_dataModel := m, noMessageBytes := 0\<rparr>" s n K]
  have "parserOK n K (s\<lparr>m_dataModel := m, noMessageBytes := 0\<rparr>)" by simp
  from outerLoop_OK [OF aborted(2) this] show ?thesis by simp
next
  case (finished m s1 b m')
  have "addedRows m = addedRows (m_dataModel s)"
    using startTransaction_rows [of "m_dataModel s"] finished(1) by simp
  with ok parserOK_cong [of "s\<lparr>m_dataModel := m, noMessageBytes := 0\<rparr>" s n K]
  have "parserOK n K (s\<lparr>m_dataModel := m, noMessageBytes := 0\<rparr>)" by simp
  from outerLoop_OK [OF finished(2) this] have "parserOK n K s1" by simp
  with parserOK_cong [of s' s1 n K] finished show ?thesis by simp
qed

lemma init_OK:
  "parserOK (length (addedRows model)) K (BinLogParser_init model object bytes)"
  by (simp add: parserOK_def candidatesOK_def registryOK_def queueOK_def rowsOK_def
      BinLogParser_init_def ts_valid_def)

subsection \<open>Timestamps\<close>

lemma storeNameValuePairList_native:
  assumes nat: "\<not> hasNoTimestamp d"
    and st: "storeNameValuePairList K s nvl d = Some (True, s', list')"
  shows "m_timeStampIndex d < length nvl
    \<and> (let idx = m_timeStampIndex d; raw = toULongLong K (snd (nvl ! idx)) in
         (m_lastValidTimeStamp s \<le> raw \<longrightarrow>
            m_lastValidTimeStamp s' = raw \<and> list' = nvl
          \<and> corruptTime (m_logLoadingState s') = corruptTime (m_logLoadingState s))
       \<and> (raw < m_lastValidTimeStamp s \<longrightarrow>
            m_lastValidTimeStamp s' = m_lastValidTimeStamp s
          \<and> list' = nvl[idx := (fst (nvl ! idx), VUInt (m_lastValidTimeStamp s))]
          \<and> corruptTime (m_logLoadingState s') =
              corruptTime (m_logLoadingState s)
                @ [(m_MessageCounter s, TimeNotIncreasing (m_lastValidTimeStamp s) raw)]))
    \<and> addedRows (m_dataModel s') =
        addedRows (m_dataModel s) @ [(m_name d, list', ts_name (m_activeTimestamp s))]"
proof -
  from nat st obtain s1 where
    rd: "readTimeStamp K s nvl (m_timeStampIndex d) = Some (s1, list')"
    by (auto simp: storeNameValuePairList_def split: option.splits prod.splits bool.splits)
  then have i: "m_timeStampIndex d < length nvl"
    by (auto simp: readTimeStamp_def split: if_splits)
  obtain m where ar: "addRow (m_name d, list', ts_name (m_activeTimestamp s1)) (m_dataModel s1) = (True, m)"
    and s': "s' = s1\<lparr>m_dataModel := m, m_MessageCounter := m_MessageCounter s1 + 1,
                     m_logLoadingState := validDataRead (m_logLoadingState s1)\<rparr>"
    using nat st rd
    by (auto simp: storeNameValuePairList_def split: option.splits prod.splits bool.splits)
  have fr: "m_dataModel s1 = m_dataModel s" "m_activeTimestamp s1 = m_activeTimestamp s"
    using rd by (auto simp: readTimeStamp_def Let_def split: if_splits)
  have rows: "addedRows (m_dataModel s') =
        addedRows (m_dataModel s) @ [(m_name d, list', ts_name (m_activeTimestamp s))]"
    using addRow_rows(1) [OF ar] s' fr by simp
  from rd i rows s' show ?thesis
    by (auto simp: readTimeStamp_def Let_def validDataRead_def corruptTimeRead_def split: if_splits)
qed

text \<open>
  Claim C4. A row of a descriptor with a timestamp of its own is stored with the number at
  \<^verbatim>\<open>m_timeStampIndex\<close>, as \<^verbatim>\<open>toULongLong\<close> reads it: when that number is not below
  the last valid timestamp it becomes the last valid timestamp and the row is stored as it
  was decoded; otherwise the last valid timestamp stays, takes the place of the number in
  the row, and one corrupt-time incident is recorded. Hence, in the rows that a run of
  \<^verbatim>\<open>parse\<close> from a new parser has given to the sink, the timestamp of a row is never
  below that of the row before it.
\<close>
theorem timestamps_monotonic:
  "(\<not> hasNoTimestamp d \<and> storeNameValuePairList K s nvl d = Some (True, s', list') \<longrightarrow>
      m_timeStampIndex d < length nvl
    \<and> (let idx = m_timeStampIndex d; raw = toULongLong K (snd (nvl ! idx)) in
         (m_lastValidTimeStamp s \<le> raw \<longrightarrow>
            m_lastValidTimeStamp s' = raw \<and> list' = nvl
          \<and> corruptTime (m_logLoadingState s') = corruptTime (m_logLoadingState s))
       \<and> (raw < m_lastValidTimeStamp s \<longrightarrow>
            m_lastValidTimeStamp s' = m_lastValidTimeStamp s
          \<and> list' = nvl[idx := (fst (nvl ! idx), VUInt (m_lastValidTimeStamp s))]
          \<and> corruptTime (m_logLoadingState s') =
              corruptTime (m_logLoadingState s)
                @ [(m_MessageCounter s, TimeNotIncreasing (m_lastValidTimeStamp s) raw)]))
    \<and> addedRows (m_dataModel s') =
        addedRows (m_dataModel s) @ [(m_name d, list', ts_name (m_activeTimestamp s))])
   \<and> (parse K (BinLogParser_init model object bytes) = Some (Finished s2)
         \<or> parse K (BinLogParser_init model object bytes) = Some (Aborted s2) \<longrightarrow>
       (\<forall>i. length (addedRows model) \<le> i \<and> Suc i < length (addedRows (m_dataModel s2)) \<longrightarrow>
          rowTime K (addedRows (m_dataModel s2) ! i)
            \<le> rowTime K (addedRows (m_dataModel s2) ! Suc i)))"
proof (rule conjI)
  show "\<not> hasNoTimestamp d \<and> storeNameValuePairList K s nvl d = Some (True, s', list') \<longrightarrow>
      m_timeStampIndex d < length nvl
    \<and> (let idx = m_timeStampIndex d; raw = toULongLong K (snd (nvl ! idx)) in
         (m_lastValidTimeStamp s \<le> raw \<longrightarrow>
            m_lastValidTimeStamp s' = raw \<and> list' = nvl
          \<and> corruptTime (m_logLoadingState s') = corruptTime (m_logLoadingState s))
       \<and> (raw < m_lastValidTimeStamp s \<longrightarrow>
            m_lastValidTimeStamp s' = m_lastValidTimeStamp s
          \<and> list' = nvl[idx := (fst (nvl ! idx), VUInt (m_lastValidTimeStamp s))]
          \<and> corruptTime (m_logLoadingState s') =
              corruptTime (m_logLoadingState s)
                @ [(m_MessageCounter s, TimeNotIncreasing (m_lastValidTimeStamp s) raw)]))
    \<and> addedRows (m_dataModel s') =
        addedRows (m_dataModel s) @ [(m_name d, list', ts_name (m_activeTimestamp s))]"
    using storeNameValuePairList_native [of d K s nvl s' list'] by blast
next
  show "parse K (BinLogParser_init model object bytes) = Some (Finished s2)
         \<or> parse K (BinLogParser_init model object bytes) = Some (Aborted s2) \<longrightarrow>
       (\<forall>i. length (addedRows model) \<le> i \<and> Suc i < length (addedRows (m_dataModel s2)) \<longrightarrow>
          rowTime K (addedRows (m_dataModel s2) ! i)
            \<le> rowTime K (addedRows (m_dataModel s2) ! Suc i))"
  proof (intro impI allI)
    fix i
    let ?n = "length (addedRows model)" and ?rows = "addedRows (m_dataModel s2)"
    assume a: "parse K (BinLogParser_init model object bytes) = Some (Finished s2)
         \<or> parse K (BinLogParser_init model object bytes) = Some (Aborted s2)"
      and i: "?n \<le> i \<and> Suc i < length ?rows"
    from a obtain r where r: "parse K (BinLogParser_init model object bytes) = Some r"
      "r = Finished s2 \<or> r = Aborted s2" by blast
    have "parserOK ?n K s2" by (rule parse_OK [OF r(1) init_OK r(2)])
    then have srt: "sorted (map (rowTime K) (drop ?n ?rows))"
      by (simp add: parserOK_def rowsOK_def)
    have "Suc (i - ?n) < length ?rows - ?n" using i by arith
    then have len: "Suc (i - ?n) < length (map (rowTime K) (drop ?n ?rows))"
      by simp
    from srt [unfolded sorted_iff_nth_Suc] len
    have "map (rowTime K) (drop ?n ?rows) ! (i - ?n)
        \<le> map (rowTime K) (drop ?n ?rows) ! Suc (i - ?n)"
      by blast
    moreover have i1: "?n \<le> i" and i2: "Suc i < length ?rows" using i by auto
    have "map (rowTime K) (drop ?n ?rows) ! (i - ?n) = rowTime K (?rows ! (?n + (i - ?n)))"
      using i1 i2 by (subst nth_map) simp_all
    moreover have "map (rowTime K) (drop ?n ?rows) ! Suc (i - ?n)
        = rowTime K (?rows ! (?n + Suc (i - ?n)))"
      using i1 i2 by (subst nth_map) simp_all
    moreover have "?n + (i - ?n) = i" "?n + Suc (i - ?n) = Suc i" using i1 by simp_all
    ultimately show "rowTime K (?rows ! i) \<le> rowTime K (?rows ! Suc i)"
      by simp
  qed
qed

text \<open>The sample log: three rows at the times 1000000, 1000000 (the PING row, with the
  timestamp put in front) and 1000000 (read as 999999 and replaced).\<close>
lemma sample_run:
  "\<exists>s2. parse (declsWith 5) (BinLogParser_init freshModel freshCallback sampleLog) = Some (Finished s2)
      \<and> addedRows (m_dataModel s2) =
          [(''TEST'', [(''X'', VUInt 42), (''TimeUS'', VUInt 1000000)], ''TimeUS''),
           (''PING'', [(''TimeUS'', VUInt 1000000), (''SEQ'', VUInt 7)], ''TimeUS''),
           (''TEST'', [(''X'', VUInt 43), (''TimeUS'', VUInt 1000000)], ''TimeUS'')]"
  by (simp add: run_defs sampleLog_def fmtTEST_def fmtPING_def)

lemma late_row:
  "storeNameValuePairList (declsWith 5) (parmRecord\<lparr>m_lastValidTimeStamp := 2000000\<rparr>)
     [(''Nm'', VString ''x''), (''TimeUS'', VUInt 1000000)] parmDescriptor
   = Some (True,
       parmRecord\<lparr>m_lastValidTimeStamp := 2000000, m_timeErrorCount := 1,
         m_logLoadingState := validDataRead (corruptTimeRead 0 (TimeNotIncreasing 2000000 1000000)
           (m_logLoadingState parmRecord)),
         m_dataModel := freshModel\<lparr>addedRows :=
           [(''PARM'', [(''Nm'', VString ''x''), (''TimeUS'', VUInt 2000000)], ''TimeUS'')]\<rparr>,
         m_MessageCounter := 1\<rparr>,
       [(''Nm'', VString ''x''), (''TimeUS'', VUInt 2000000)])"
  by (simp add: storeNameValuePairList_def parmDescriptor_def parmRecord_def hasNoTimestamp_def
      readTimeStamp_def toULongLong_def addRow_def sinkAnswer_def freshModel_def
      BinLogParser_init_def Let_def)

theorem timestamps_monotonic_witness:
  "(\<exists>s2. parse (declsWith 5) (BinLogParser_init freshModel freshCallback sampleLog)
            = Some (Finished s2)
         \<and> map (rowTime (declsWith 5)) (addedRows (m_dataModel s2)) = [1000000, 1000000, 1000000]
         \<and> (\<forall>i. Suc i < length (addedRows (m_dataModel s2)) \<longrightarrow>
               rowTime (declsWith 5) (addedRows (m_dataModel s2) ! i)
                 \<le> rowTime (declsWith 5) (addedRows (m_dataModel s2) ! Suc i)))
   \<and> m_timeStampIndex parmDescriptor < length [(''Nm'', VString ''x''), (''TimeUS'', VUInt 1000000)]
   \<and> toULongLong (declsWith 5) (VUInt 1000000) < 2000000"
proof -
  from sample_run obtain s2 where
    run: "parse (declsWith 5) (BinLogParser_init freshModel freshCallback sampleLog)
            = Some (Finished s2)"
    and rows: "addedRows (m_dataModel s2) =
          [(''TEST'', [(''X'', VUInt 42), (''TimeUS'', VUInt 1000000)], ''TimeUS''),
           (''PING'', [(''TimeUS'', VUInt 1000000), (''SEQ'', VUInt 7)], ''TimeUS''),
           (''TEST'', [(''X'', VUInt 43), (''TimeUS'', VUInt 1000000)], ''TimeUS'')]"
    by blast
  have e: "addedRows freshModel = []" by (simp add: freshModel_def)
  have n: "\<not> hasNoTimestamp parmDescriptor" by (simp add: hasNoTimestamp_def parmDescriptor_def)
  note t = timestamps_monotonic [where K = "declsWith 5" and model = freshModel
      and object = freshCallback and bytes = sampleLog and ?s2.0 = s2
      and d = parmDescriptor and s = "parmRecord\<lparr>m_lastValidTimeStamp := 2000000\<rparr>"
      and nvl = "[(''Nm'', VString ''x''), (''TimeUS'', VUInt 1000000)]"]
  from t [THEN conjunct2, rule_format, OF disjI1, OF run]
  have "\<And>i. length (addedRows freshModel) \<le> i \<and> Suc i < length (addedRows (m_dataModel s2))
          \<Longrightarrow> rowTime (declsWith 5) (addedRows (m_dataModel s2) ! i)
                 \<le> rowTime (declsWith 5) (addedRows (m_dataModel s2) ! Suc i)"
    by blast
  then have mono: "\<forall>i. Suc i < length (addedRows (m_dataModel s2)) \<longrightarrow>
               rowTime (declsWith 5) (addedRows (m_dataModel s2) ! i)
                 \<le> rowTime (declsWith 5) (addedRows (m_dataModel s2) ! Suc i)"
    by (simp add: e)
  from t [THEN conjunct1, rule_format, OF conjI, OF n late_row]
  have i: "m_timeStampIndex parmDescriptor
      < length [(''Nm'', VString ''x''), (''TimeUS'', VUInt 1000000)]"
    by blast
  have times: "map (rowTime (declsWith 5)) (addedRows (m_dataModel s2))
      = [1000000, 1000000, 1000000]"
    by (simp add: rows rowTime_def toULongLong_def)
  have u: "toULongLong (declsWith 5) (VUInt 1000000) < 2000000" by (simp add: toULongLong_def)
  show ?thesis by (intro conjI exI [of _ s2]) (fact run times mono i u)+
qed

subsection \<open>Termination\<close>

lemma storeDescriptor_map_le:
  assumes "storeDescriptor K s d = (b, s')"
  shows "m_typeToDescriptorMap s \<subseteq>\<^sub>m m_typeToDescriptorMap s'"
  unfolding storeDescriptor_registry [OF assms] by (auto simp: map_le_def)

lemma storeDeferred_map_le:
  "storeDeferred K ds rc s = (b, s') \<Longrightarrow> m_typeToDescriptorMap s \<subseteq>\<^sub>m m_typeToDescriptorMap s'"
proof (induction ds arbitrary: rc s)
  case Nil
  then show ?case by simp
next
  case (Cons d ds)
  obtain b1 s1 where s1: "storeDescriptor K s d = (b1, s1)" by (cases "storeDescriptor K s d")
  with Cons.prems have "storeDeferred K ds (rc \<and> b1) s1 = (b, s')" by simp
  from Cons.IH [OF this] storeDescriptor_map_le [OF s1] show ?case by (rule map_le_trans [rotated])
qed

lemma extendedStoreDescriptor_map_le:
  assumes "extendedStoreDescriptor K s d = (b, s')"
  shows "m_typeToDescriptorMap s \<subseteq>\<^sub>m m_typeToDescriptorMap s'"
proof -
  obtain rc s1 where s1: "storeDeferred K (m_descriptorForDeferredStorage s) True s = (rc, s1)"
    by (cases "storeDeferred K (m_descriptorForDeferredStorage s) True s")
  note l1 = storeDeferred_map_le [OF s1]
  show ?thesis
  proof (cases rc)
    case True
    with assms s1 have "storeDescriptor K (s1\<lparr>m_descriptorForDeferredStorage := []\<rparr>) d = (b, s')"
      by (simp add: extendedStoreDescriptor_def)
    from storeDescriptor_map_le [OF this] l1 show ?thesis by (auto intro: map_le_trans)
  next
    case False
    with assms s1 have "s' = s1\<lparr>m_descriptorForDeferredStorage := []\<rparr>"
      by (simp add: extendedStoreDescriptor_def)
    with l1 show ?thesis by simp
  qed
qed

lemma parseFMTRecord_frame:
  assumes st: "parseFMTRecord K s = Continue s' \<or> parseFMTRecord K s = Break s'
           \<or> parseFMTRecord K s = Return s'"
  shows "logfile s' = logfile s \<and> m_stop s' = m_stop s
       \<and> m_typeToDescriptorMap s \<subseteq>\<^sub>m m_typeToDescriptorMap s'
       \<and> (parseFMTRecord K s = Continue s' \<longrightarrow>
            m_dataPos s' = 0
          \<and> length (m_dataBlock s') + m_dataPos s + 2 \<le> length (m_dataBlock s))"
proof (cases "parseFMTMessage s typeDescriptor_init")
  case None
  with st show ?thesis by (simp add: parseFMTRecord_def)
next
  case (Some r)
  then obtain b s1 d where r: "parseFMTMessage s typeDescriptor_init = Some (b, s1, d)"
    by (cases r) auto
  note fr = parseFMTMessage_frame [OF r]
  note len = parseFMTMessage_Some_length [OF r]
  show ?thesis
  proof (cases b)
    case False
    with st r fr show ?thesis by (auto simp: parseFMTRecord_def)
  next
    case True
    with r have bp: "m_dataPos s1 = 0"
      "length (m_dataBlock s1) + m_dataPos s + 2 \<le> length (m_dataBlock s)"
      using len by (auto simp: parseFMTMessage_def Let_def remove0_def split: option.splits if_splits)
    let ?d1 = "if m_name d = ''GPS'' then replaceLabelName ''TimeMS'' ''GPSTimeMS'' d else d"
    show ?thesis
    proof (cases "ts_valid (m_activeTimestamp s1)")
      case v: True
      obtain b2 s2 where e: "extendedStoreDescriptor K s1 (finalize (m_activeTimestamp s1) ?d1) = (b2, s2)"
        by (cases "extendedStoreDescriptor K s1 (finalize (m_activeTimestamp s1) ?d1)")
      have "s' = s2" using st r True v e
        by (cases b2) (simp_all add: parseFMTRecord_def Let_def)
      with extendedStoreDescriptor_frame [OF e] extendedStoreDescriptor_map_le [OF e] fr bp
      show ?thesis by simp
    next
      case v: False
      have "s' = checkForValidTimestamp s1 ?d1" using st r True v
        by (simp add: parseFMTRecord_def Let_def)
      with fr bp show ?thesis
        by (simp add: checkForValidTimestamp_def Let_def split: option.splits)
    qed
  qed
qed

lemma parseDataByDescriptor_True:
  assumes "parseDataByDescriptor s d = (True, s1, nvl)"
  shows "m_dataPos s1 = 0
       \<and> m_dataBlock s1 = drop (nat (m_length d + int (m_dataPos s) - 3)) (m_dataBlock s)"
  using assms
  by (auto simp: parseDataByDescriptor_def Let_def remove0_def s_HeaderOffset_def
      split: if_splits prod.splits)

lemma parseDataRecord_frame:
  assumes st: "parseDataRecord K s d = Continue s' \<or> parseDataRecord K s d = Break s'
           \<or> parseDataRecord K s d = Return s'"
  shows "logfile s' = logfile s \<and> m_stop s' = m_stop s
       \<and> m_typeToDescriptorMap s' = m_typeToDescriptorMap s
       \<and> (parseDataRecord K s d = Continue s' \<longrightarrow>
            m_dataPos s' = 0
          \<and> m_dataBlock s' = drop (nat (m_length d + int (m_dataPos s) - 3)) (m_dataBlock s))"
  using st
proof (cases rule: parseDataRecord_cases)
  case (short nvl)
  with parseDataByDescriptor_frame [OF short] parseDataByDescriptor_False [OF short]
  show ?thesis by (simp add: parseDataRecord_def)
next
  case (empty s1)
  with parseDataByDescriptor_frame [OF empty(1)] parseDataByDescriptor_True [OF empty(1)]
  show ?thesis by simp
next
  case (stored s1 nvl b list2)
  with parseDataByDescriptor_frame [OF stored(1)] parseDataByDescriptor_True [OF stored(1)]
    storeNameValuePairList_frame [OF stored(3)]
  show ?thesis by simp
next
  case (kind s1 nvl s2 list2)
  with parseDataByDescriptor_frame [OF kind(1)] parseDataByDescriptor_True [OF kind(1)]
    storeNameValuePairList_frame [OF kind(3)] detectMavType_frame [OF kind(4)]
  show ?thesis by simp
qed

lemma innerStep_frame:
  assumes st: "innerStep K s = Continue s' \<or> innerStep K s = Break s' \<or> innerStep K s = Return s'"
  shows "logfile s' = logfile s \<and> m_stop s' = m_stop s
       \<and> m_typeToDescriptorMap s \<subseteq>\<^sub>m m_typeToDescriptorMap s'"
proof (cases "headerIsValid s")
  case None
  with st show ?thesis by (simp add: innerStep_def)
next
  case (Some r)
  then obtain b s1 where h: "headerIsValid s = Some (b, s1)" by (cases r) auto
  from headerIsValid_frame [OF h] obtain p t where
    s1: "s1 = s\<lparr>m_dataPos := p, m_messageType := t\<rparr>" by blast
  show ?thesis
  proof (cases b)
    case False
    with st h have "s' = s1\<lparr>noMessageBytes := noMessageBytes s1 + 1\<rparr>"
      by (auto simp: innerStep_def)
    with s1 show ?thesis by simp
  next
    case True
    show ?thesis
    proof (cases "m_messageType s1 = s_FMTMessageType")
      case f: True
      with st h True have "parseFMTRecord K s1 = Continue s' \<or> parseFMTRecord K s1 = Break s'
           \<or> parseFMTRecord K s1 = Return s'" by (simp add: innerStep_def)
      from parseFMTRecord_frame [OF this] s1 show ?thesis by simp
    next
      case f: False
      show ?thesis
      proof (cases "m_typeToDescriptorMap s1 (m_messageType s1)")
        case None
        with st h True f have "s' = s1\<lparr>m_logLoadingState :=
            corruptDataRead (m_MessageCounter s1) (NoDescriptor (m_messageType s1))
              (m_logLoadingState s1)\<rparr>"
          by (auto simp: innerStep_def)
        with s1 show ?thesis by simp
      next
        case (Some d)
        with st h True f have "parseDataRecord K s1 d = Continue s'
          \<or> parseDataRecord K s1 d = Break s' \<or> parseDataRecord K s1 d = Return s'"
          by (simp add: innerStep_def)
        from parseDataRecord_frame [OF this] s1 show ?thesis by simp
      qed
    qed
  qed
qed

lemma innerStep_decreases:
  assumes reg: "\<forall>k d. m_typeToDescriptorMap s k = Some d \<longrightarrow> 0 < m_length d"
    and st: "innerStep K s = Continue s'"
  shows "length (m_dataBlock s') - m_dataPos s' < length (m_dataBlock s) - m_dataPos s"
proof (cases "headerIsValid s")
  case None
  with st show ?thesis by (simp add: innerStep_def)
next
  case (Some r)
  then obtain b s1 where h: "headerIsValid s = Some (b, s1)" by (cases r) auto
  from headerIsValid_frame [OF h] obtain p t where
    s1: "s1 = s\<lparr>m_dataPos := p, m_messageType := t\<rparr>"
    and p: "m_dataPos s < p" "p \<le> length (m_dataBlock s)" "b \<longrightarrow> p = m_dataPos s + 3" by blast
  show ?thesis
  proof (cases b)
    case False
    with st h have "s' = s1\<lparr>noMessageBytes := noMessageBytes s1 + 1\<rparr>"
      by (auto simp: innerStep_def)
    with s1 p show ?thesis by simp
  next
    case True
    show ?thesis
    proof (cases "m_messageType s1 = s_FMTMessageType")
      case f: True
      with st h True have c: "parseFMTRecord K s1 = Continue s'" by (simp add: innerStep_def)
      then have e: "m_dataPos s' = 0"
          "length (m_dataBlock s') + m_dataPos s1 + 2 \<le> length (m_dataBlock s1)"
        using parseFMTRecord_frame [of K s1 s'] by blast+
      from e(2) s1 p True have "length (m_dataBlock s') + m_dataPos s + 5 \<le> length (m_dataBlock s)"
        by simp
      with e(1) show ?thesis by linarith
    next
      case f: False
      show ?thesis
      proof (cases "m_typeToDescriptorMap s1 (m_messageType s1)")
        case None
        with st h True f have "s' = s1\<lparr>m_logLoadingState :=
            corruptDataRead (m_MessageCounter s1) (NoDescriptor (m_messageType s1))
              (m_logLoadingState s1)\<rparr>"
          by (auto simp: innerStep_def)
        with s1 p show ?thesis by simp
      next
        case (Some d)
        with st h True f have c: "parseDataRecord K s1 d = Continue s'"
          by (simp add: innerStep_def)
        then have e: "m_dataPos s' = 0"
          "m_dataBlock s' = drop (nat (m_length d + int (m_dataPos s1) - 3)) (m_dataBlock s1)"
          using parseDataRecord_frame [of K s1 d s'] by auto
        from Some s1 reg have "0 < m_length d" by simp
        with e s1 p True show ?thesis by simp
      qed
    qed
  qed
qed

lemma registry_lengths:
  "parserOK n K s \<Longrightarrow> \<forall>k d. m_typeToDescriptorMap s k = Some d \<longrightarrow> 0 < m_length d"
  by (auto simp: parserOK_def registryOK_def isValid_def split: if_splits)

lemma innerLoop_terminates:
  "parserOK n K s \<Longrightarrow> \<exists>r. innerLoop K s = Some r"
proof (induction "length (m_dataBlock s) - m_dataPos s" arbitrary: s rule: less_induct)
  case less
  show ?case
  proof (cases "innerGuard K s")
    case False
    then show ?thesis by (subst innerLoop.simps) simp
  next
    case True
    show ?thesis
    proof (cases "innerStep K s")
      case (Continue s1)
      have "parserOK n K s1" using innerStep_OK [OF less.prems] Continue by blast
      moreover have "length (m_dataBlock s1) - m_dataPos s1 < length (m_dataBlock s) - m_dataPos s"
        by (rule innerStep_decreases [OF registry_lengths [OF less.prems] Continue])
      ultimately obtain r where "innerLoop K s1 = Some r" using less.hyps by blast
      with True Continue show ?thesis by (subst innerLoop.simps) simp
    next
      case (Break s1)
      with True show ?thesis by (subst innerLoop.simps) simp
    next
      case (Return s1)
      with True show ?thesis by (subst innerLoop.simps) simp
    next
      case OutOfRange
      with True show ?thesis by (subst innerLoop.simps) simp
    qed
  qed
qed

lemma innerLoop_frame:
  assumes "innerLoop K s = Some r" and "r = Finished s' \<or> r = Aborted s'"
  shows "logfile s' = logfile s \<and> m_stop s' = m_stop s
       \<and> m_typeToDescriptorMap s \<subseteq>\<^sub>m m_typeToDescriptorMap s'"
  by (rule innerLoop_invariant [where P = "\<lambda>x. logfile x = logfile s \<and> m_stop x = m_stop s
         \<and> m_typeToDescriptorMap s \<subseteq>\<^sub>m m_typeToDescriptorMap x", OF assms(1) _ _ assms(2)])
     (use innerStep_frame in \<open>auto intro: map_le_trans\<close>)

lemma outerLoop_terminates:
  "parserOK n K s \<Longrightarrow> \<exists>r. outerLoop K s = Some r"
proof (induction "length (logfile s)" arbitrary: s rule: less_induct)
  case less
  show ?case
  proof (cases "outerGuard s")
    case False
    then show ?thesis by (subst outerLoop.simps) simp
  next
    case True
    have okr: "parserOK n K (refill K s)" by (rule refill_OK [OF less.prems])
    from innerLoop_terminates [OF okr] obtain r1 where i: "innerLoop K (refill K s) = Some r1"
      by blast
    show ?thesis
    proof (cases r1)
      case (Finished s1)
      have "parserOK n K s1"
        by (rule innerLoop_invariant [where P = "parserOK n K", OF i _ okr])
           (auto intro: innerStep_OK simp: Finished)
      moreover have "logfile s1 = logfile (refill K s)" using innerLoop_frame [OF i] Finished by simp
      then have "length (logfile s1) < length (logfile s)"
        using True by (cases "logfile s") (simp_all add: refill_def outerGuard_def)
      ultimately obtain r where "outerLoop K s1 = Some r" using less.hyps by blast
      with True i Finished show ?thesis by (subst outerLoop.simps) simp
    next
      case (Aborted s1)
      with True i show ?thesis by (subst outerLoop.simps) simp
    next
      case Crashed
      with True i show ?thesis by (subst outerLoop.simps) simp
    qed
  qed
qed

lemma outerLoop_frame:
  assumes "outerLoop K s = Some r" and "r = Finished s' \<or> r = Aborted s'"
  shows "m_stop s' = m_stop s \<and> m_typeToDescriptorMap s \<subseteq>\<^sub>m m_typeToDescriptorMap s'"
  by (rule outerLoop_invariant [where P = "\<lambda>x. m_stop x = m_stop s
         \<and> m_typeToDescriptorMap s \<subseteq>\<^sub>m m_typeToDescriptorMap x", OF assms(1) _ _ _ assms(2)])
     (use innerStep_frame in \<open>auto intro: map_le_trans simp: refill_def\<close>)

lemma outerLoop_halts_at:
  assumes run: "outerLoop K s = Some (Finished s')"
  shows "\<not> outerGuard s'"
proof -
  let ?Q = "\<lambda>K' s r. \<forall>s'. r = Finished s' \<longrightarrow> \<not> outerGuard s'"
  have "?Q K s (Finished s')"
  proof (rule outerLoop.raw_induct [where P = ?Q, OF _ run])
    fix loop K' s r
    assume IH: "\<And>s b y. loop s b = Some y \<Longrightarrow> ?Q s b y"
      and eq: "(if outerGuard s
                then case innerLoop K' (refill K' s) of None \<Rightarrow> None
                     | Some (Finished s') \<Rightarrow> loop K' s'
                     | Some (Aborted s') \<Rightarrow> Some (Aborted s')
                     | Some Crashed \<Rightarrow> Some Crashed
                else Some (Finished s)) = Some r"
    show "?Q K' s r"
    proof (cases "outerGuard s")
      case False
      with eq show ?thesis by auto
    next
      case True
      with eq IH show ?thesis
        by (auto split: option.splits outcome.splits)
    qed
  qed
  then show ?thesis by blast
qed

subsection \<open>The end of the outer loop\<close>

lemma parse_terminates:
  "\<exists>r. parse K ((BinLogParser_init model object bytes)\<lparr>m_stop := stop\<rparr>) = Some r"
proof -
  let ?s = "(BinLogParser_init model object bytes)\<lparr>m_stop := stop\<rparr>"
  obtain b m where st: "startTransaction (m_dataModel ?s) = (b, m)"
    by (cases "startTransaction (m_dataModel ?s)")
  show ?thesis
  proof (cases b)
    case False
    with st show ?thesis by (simp add: parse_def BinLogParser_init_def)
  next
    case True
    have "addedRows m = addedRows model"
      using startTransaction_rows [of "m_dataModel ?s"] st by (simp add: BinLogParser_init_def)
    with init_OK [of model K object bytes]
      parserOK_cong [of "?s\<lparr>m_dataModel := m, noMessageBytes := 0\<rparr>"
        "BinLogParser_init model object bytes" "length (addedRows model)" K]
    have "parserOK (length (addedRows model)) K (?s\<lparr>m_dataModel := m, noMessageBytes := 0\<rparr>)"
      by (simp add: BinLogParser_init_def)
    from outerLoop_terminates [OF this] obtain r where
      o: "outerLoop K (?s\<lparr>m_dataModel := m, noMessageBytes := 0\<rparr>) = Some r" by blast
    have n: "\<not> (dataModelIsNull ?s \<or> callbackIsNull ?s)" by (simp add: BinLogParser_init_def)
    show ?thesis
      unfolding parse_def using n st True o
      by (cases r) (auto simp: Let_def split: prod.splits bool.splits)
  qed
qed

text \<open>
  Claim C8, as amended. The outer loop of \<^verbatim>\<open>parse\<close> stops exactly when the file is at its
  end or the stop flag is set: then it is left at once, otherwise its body runs (refill and
  inner loop), and when the loop has ended the file is at its end or the flag is set. The
  bytes in the buffer do not enter into it. A run of \<^verbatim>\<open>parse\<close> always comes to an
  end.
\<close>
theorem outerLoop_halts:
  "(logfile s = [] \<or> m_stop s \<longrightarrow> outerLoop K s = Some (Finished s))
   \<and> (logfile s \<noteq> [] \<and> \<not> m_stop s \<longrightarrow>
        outerLoop K s =
          (case innerLoop K (refill K s) of
             None \<Rightarrow> None
           | Some (Finished s1) \<Rightarrow> outerLoop K s1
           | Some (Aborted s1) \<Rightarrow> Some (Aborted s1)
           | Some Crashed \<Rightarrow> Some Crashed))
   \<and> (outerLoop K s = Some (Finished s') \<longrightarrow> logfile s' = [] \<or> m_stop s')
   \<and> (\<exists>r. parse K ((BinLogParser_init model object bytes)\<lparr>m_stop := stop\<rparr>) = Some r)"
proof (intro conjI)
  show "logfile s = [] \<or> m_stop s \<longrightarrow> outerLoop K s = Some (Finished s)"
    by (subst outerLoop.simps) (auto simp: outerGuard_def)
  show "logfile s \<noteq> [] \<and> \<not> m_stop s \<longrightarrow>
        outerLoop K s =
          (case innerLoop K (refill K s) of
             None \<Rightarrow> None
           | Some (Finished s1) \<Rightarrow> outerLoop K s1
           | Some (Aborted s1) \<Rightarrow> Some (Aborted s1)
           | Some Crashed \<Rightarrow> Some Crashed)"
    by (subst outerLoop.simps) (simp add: outerGuard_def)
  show "outerLoop K s = Some (Finished s') \<longrightarrow> logfile s' = [] \<or> m_stop s'"
    using outerLoop_halts_at [of K s s'] by (auto simp: outerGuard_def)
  show "\<exists>r. parse K ((BinLogParser_init model object bytes)\<lparr>m_stop := stop\<rparr>) = Some r"
    by (rule parse_terminates)
qed

theorem outerLoop_halts_witness:
  "outerLoop (declsWith 5) (nanRecord\<lparr>m_stop := True\<rparr>) = Some (Finished (nanRecord\<lparr>m_stop := True\<rparr>))
   \<and> (\<exists>s'. outerLoop (declsWith 5) (shortFMT\<lparr>m_dataBlock := []\<rparr>) = Some (Finished s')
         \<and> logfile s' = [])"
proof -
  have 1: "outerLoop (declsWith 5) (nanRecord\<lparr>m_stop := True\<rparr>)
      = Some (Finished (nanRecord\<lparr>m_stop := True\<rparr>))"
    using outerLoop_halts [of "nanRecord\<lparr>m_stop := True\<rparr>" "declsWith 5", THEN conjunct1]
    by simp
  have g: "logfile (shortFMT\<lparr>m_dataBlock := []\<rparr>) \<noteq> [] \<and> \<not> m_stop (shortFMT\<lparr>m_dataBlock := []\<rparr>)"
    by (simp add: shortFMT_def BinLogParser_init_def)
  have i: "innerLoop (declsWith 5) (refill (declsWith 5) (shortFMT\<lparr>m_dataBlock := []\<rparr>))
      = Some (Finished ((refill (declsWith 5) (shortFMT\<lparr>m_dataBlock := []\<rparr>))))"
    by (simp add: run_defs shortFMT_def)
  have l: "logfile (refill (declsWith 5) (shortFMT\<lparr>m_dataBlock := []\<rparr>)) = []"
    by (simp add: refill_def shortFMT_def BinLogParser_init_def)
  note t = outerLoop_halts [where K = "declsWith 5"]
  from t [where s = "shortFMT\<lparr>m_dataBlock := []\<rparr>", THEN conjunct2, THEN conjunct1, rule_format, OF g]
  have "outerLoop (declsWith 5) (shortFMT\<lparr>m_dataBlock := []\<rparr>)
      = outerLoop (declsWith 5) (refill (declsWith 5) (shortFMT\<lparr>m_dataBlock := []\<rparr>))"
    by (simp add: i)
  also have "\<dots> = Some (Finished (refill (declsWith 5) (shortFMT\<lparr>m_dataBlock := []\<rparr>)))"
    using t [where s = "refill (declsWith 5) (shortFMT\<lparr>m_dataBlock := []\<rparr>)", THEN conjunct1] l
    by simp
  finally show ?thesis using 1 l by simp
qed


text \<open>
  Claim C8 as stated fails on a log that ends inside a record: the file is at its end after
  the first refill, the FMT record is cut short, and \<^verbatim>\<open>parse\<close> ends with seven bytes in
  the buffer behind the cursor, more than \<^verbatim>\<open>s_MinHeaderSize\<close>, be it 3 or 5.
\<close>
theorem parse_stops_before_truncated_record:
  "parse (declsWith 3) (BinLogParser_init freshModel freshCallback truncatedLog)
     = Some (Finished ((BinLogParser_init freshModel freshCallback truncatedLog)
         \<lparr>m_callbackObject := \<lparr>progressReports = [(0, 12)], errorReports = 0\<rparr>,
          m_dataModel := freshModel\<lparr>transactionsStarted := 1, transactionsEnded := 1,
            allRowsHaveTime := Some (True, [], 0)\<rparr>,
          m_dataBlock := truncatedLog, m_dataPos := 5, m_messageType := CHR 0x80,
          logfile := []\<rparr>))
   \<and> s_MinHeaderSize (declsWith 3) < length truncatedLog - 5
   \<and> parse (declsWith 5) (BinLogParser_init freshModel freshCallback truncatedLog)
     = Some (Finished ((BinLogParser_init freshModel freshCallback truncatedLog)
         \<lparr>m_callbackObject := \<lparr>progressReports = [(0, 12)], errorReports = 0\<rparr>,
          m_dataModel := freshModel\<lparr>transactionsStarted := 1, transactionsEnded := 1,
            allRowsHaveTime := Some (True, [], 0)\<rparr>,
          m_dataBlock := truncatedLog, m_dataPos := 5, m_messageType := CHR 0x80,
          logfile := []\<rparr>))
   \<and> s_MinHeaderSize (declsWith 5) < length truncatedLog - 5"
  by (simp add: run_defs truncatedLog_def)

subsection \<open>The registry\<close>

lemma parse_map_le:
  assumes "parse K s = Some r" and "r = Finished s' \<or> r = Aborted s'"
  shows "m_typeToDescriptorMap s \<subseteq>\<^sub>m m_typeToDescriptorMap s'"
  using assms
proof (cases rule: parse_cases)
  case null
  then show ?thesis by simp
next
  case (start m)
  then show ?thesis by simp
next
  case (aborted m)
  from outerLoop_frame [OF aborted(2)] show ?thesis by simp
next
  case (finished m s1 b m')
  from outerLoop_frame [OF finished(2)] finished(6) show ?thesis by simp
qed

text \<open>
  Claim C7. \<^verbatim>\<open>storeDescriptor\<close> enters a descriptor into the registry exactly when it is
  valid and its id is not yet there; for a valid descriptor whose id is there it records a
  corrupt-FMT incident, returns true and changes nothing else, so the first descriptor
  stays. An entry of the registry is still there, unchanged, after every pass of the inner
  loop and at the end of the inner loop, of the outer loop and of \<^verbatim>\<open>parse\<close>.
\<close>
theorem registry_first_wins:
  "m_typeToDescriptorMap (snd (storeDescriptor K s d)) =
     (if isValid K d \<and> m_typeToDescriptorMap s (m_ID d) = None
      then (m_typeToDescriptorMap s)(m_ID d \<mapsto> d) else m_typeToDescriptorMap s)
   \<and> (isValid K d \<and> m_typeToDescriptorMap s (m_ID d) \<noteq> None \<longrightarrow>
        storeDescriptor K s d =
          (True, s\<lparr>m_logLoadingState :=
                     corruptFMTRead (m_MessageCounter s) (DoubledEntry (m_name d))
                       (m_logLoadingState s)\<rparr>))
   \<and> (m_typeToDescriptorMap s k = Some d0 \<longrightarrow>
        (\<forall>s'. innerStep K s = Continue s' \<or> innerStep K s = Break s' \<or> innerStep K s = Return s'
               \<longrightarrow> m_typeToDescriptorMap s' k = Some d0)
      \<and> (\<forall>s'. innerLoop K s = Some (Finished s') \<or> innerLoop K s = Some (Aborted s')
               \<longrightarrow> m_typeToDescriptorMap s' k = Some d0)
      \<and> (\<forall>s'. outerLoop K s = Some (Finished s') \<or> outerLoop K s = Some (Aborted s')
               \<longrightarrow> m_typeToDescriptorMap s' k = Some d0)
      \<and> (\<forall>s'. parse K s = Some (Finished s') \<or> parse K s = Some (Aborted s')
               \<longrightarrow> m_typeToDescriptorMap s' k = Some d0))"
proof (intro conjI impI allI)
  show "m_typeToDescriptorMap (snd (storeDescriptor K s d)) =
     (if isValid K d \<and> m_typeToDescriptorMap s (m_ID d) = None
      then (m_typeToDescriptorMap s)(m_ID d \<mapsto> d) else m_typeToDescriptorMap s)"
    using storeDescriptor_registry [of K s d] by (cases "storeDescriptor K s d") simp
  show "storeDescriptor K s d =
          (True, s\<lparr>m_logLoadingState :=
                     corruptFMTRead (m_MessageCounter s) (DoubledEntry (m_name d))
                       (m_logLoadingState s)\<rparr>)"
    if "isValid K d \<and> m_typeToDescriptorMap s (m_ID d) \<noteq> None"
    using that by (auto simp: storeDescriptor_def)
next
  fix s'
  assume k: "m_typeToDescriptorMap s k = Some d0"
  {
    assume "innerStep K s = Continue s' \<or> innerStep K s = Break s' \<or> innerStep K s = Return s'"
    from innerStep_frame [OF this] k show "m_typeToDescriptorMap s' k = Some d0"
      by (auto simp: map_le_def dom_def)
  next
    assume "innerLoop K s = Some (Finished s') \<or> innerLoop K s = Some (Aborted s')"
    then obtain r where "innerLoop K s = Some r" "r = Finished s' \<or> r = Aborted s'" by blast
    from innerLoop_frame [OF this] k show "m_typeToDescriptorMap s' k = Some d0"
      by (auto simp: map_le_def dom_def)
  next
    assume "outerLoop K s = Some (Finished s') \<or> outerLoop K s = Some (Aborted s')"
    then obtain r where "outerLoop K s = Some r" "r = Finished s' \<or> r = Aborted s'" by blast
    from outerLoop_frame [OF this] k show "m_typeToDescriptorMap s' k = Some d0"
      by (auto simp: map_le_def dom_def)
  next
    assume "parse K s = Some (Finished s') \<or> parse K s = Some (Aborted s')"
    then obtain r where "parse K s = Some r" "r = Finished s' \<or> r = Aborted s'" by blast
    from parse_map_le [OF this] k show "m_typeToDescriptorMap s' k = Some d0"
      by (auto simp: map_le_def dom_def)
  }
qed

theorem registry_first_wins_witness:
  "storeDescriptor (declsWith 5) nanRecord duplicate
     = (True, nanRecord\<lparr>m_logLoadingState := (m_logLoadingState nanRecord)
          \<lparr>corruptFMT := [(0, DoubledEntry ''DUPL'')]\<rparr>\<rparr>)
   \<and> m_typeToDescriptorMap (snd (storeDescriptor (declsWith 5) nanRecord duplicate)) (CHR 0x81)
     = Some byteFloat
   \<and> (\<exists>s'. innerLoop (declsWith 5) (nanRecord\<lparr>m_dataPos := 0\<rparr>) = Some (Finished s')
         \<and> m_typeToDescriptorMap s' (CHR 0x81) = Some byteFloat)"
proof -
  note t = registry_first_wins [where K = "declsWith 5" and d = duplicate and k = "CHR 0x81"
      and ?d0.0 = byteFloat]
  have v: "isValid (declsWith 5) duplicate \<and> m_typeToDescriptorMap nanRecord (m_ID duplicate) \<noteq> None"
    by (simp add: isValid_def duplicate_def nanRecord_def declsWith_def s_FMTMessageType_def)
  from t [where s = nanRecord, THEN conjunct2, THEN conjunct1, rule_format, OF v]
  have 1: "storeDescriptor (declsWith 5) nanRecord duplicate
     = (True, nanRecord\<lparr>m_logLoadingState := (m_logLoadingState nanRecord)
          \<lparr>corruptFMT := [(0, DoubledEntry ''DUPL'')]\<rparr>\<rparr>)"
    by (simp add: corruptFMTRead_def nanRecord_def BinLogParser_init_def duplicate_def)
  have 2: "m_typeToDescriptorMap (snd (storeDescriptor (declsWith 5) nanRecord duplicate)) (CHR 0x81)
     = Some byteFloat"
    using t [where s = nanRecord, THEN conjunct1] v by (simp add: nanRecord_def)
  have k: "m_typeToDescriptorMap (nanRecord\<lparr>m_dataPos := 0\<rparr>) (CHR 0x81) = Some byteFloat"
    by (simp add: nanRecord_def)
  obtain s' where r: "innerLoop (declsWith 5) (nanRecord\<lparr>m_dataPos := 0\<rparr>) = Some (Finished s')"
    by (simp add: run_defs nanRecord_def byteFloat_def isNaN_def)
  from t [where s = "nanRecord\<lparr>m_dataPos := 0\<rparr>", THEN conjunct2, THEN conjunct2, rule_format, OF k]
    r
  have "m_typeToDescriptorMap s' (CHR 0x81) = Some byteFloat" by blast
  with 1 2 r show ?thesis by blast
qed

subsection \<open>Records with a NaN\<close>

lemma decodeFields_skip:
  "skipFields pre st = Some st' \<Longrightarrow>
     \<exists>acc'. decodeFields d (pre @ rest) i st acc = decodeFields d rest (i + length pre) st' acc'"
proof (induction pre arbitrary: st i acc)
  case Nil
  then show ?case by auto
next
  case (Cons c cs)
  then obtain v st1 where f: "decodeField c st = Field v st1" and r: "skipFields cs st1 = Some st'"
    by (auto split: decoded.splits)
  from Cons.IH [OF r, of "i + 1" "acc @ [(getLabelAtIndex d i, v)]"] f show ?case by simp
qed

lemma decodeField_NaN:
  "isNaN (fst (readUnsigned 4 st)) \<Longrightarrow> decodeField (CHR ''f'') st = NaNFound"
  by (cases "readUnsigned 4 st") (simp add: decodeField_def)

text \<open>
  Claim C3, as amended. Let the decoding of a data record reach a field of code \<open>f\<close> whose
  four bytes are a NaN. Then \<^verbatim>\<open>parseDataByDescriptor\<close> records one corrupt-data
  incident, consumes the record and returns true with the empty list, whatever follows
  the field in the format; \<^verbatim>\<open>parse\<close> finds the list empty, hands nothing to the sink and
  records a second corrupt-data incident (no values within the data message). Two
  incidents are recorded for the record, not one.
\<close>
theorem nan_record_discarded:
  assumes enough: "m_length desc - s_HeaderOffset \<le> int (length (m_dataBlock s)) - int (m_dataPos s)"
    and fmt: "m_format desc = pre @ CHR ''f'' # post"
    and pre: "skipFields pre (mid (m_dataBlock s) (m_dataPos s) (m_length desc - s_HeaderOffset))
                = Some st'"
    and nan: "isNaN (fst (readUnsigned 4 st'))"
  shows "parseDataByDescriptor s desc =
           (True,
            s\<lparr>m_logLoadingState :=
                 corruptDataRead (m_MessageCounter s) (CorruptElement (m_name desc))
                   (m_logLoadingState s),
              m_dataBlock :=
                 remove0 (m_dataBlock s) (m_length desc + int (m_dataPos s) - s_HeaderOffset),
              m_dataPos := 0\<rparr>,
            [])
       \<and> (\<exists>s'. parseDataRecord K s desc = Continue s'
             \<and> m_dataModel s' = m_dataModel s
             \<and> corruptData (m_logLoadingState s') =
                 corruptData (m_logLoadingState s)
                   @ [(m_MessageCounter s, CorruptElement (m_name desc)),
                      (m_MessageCounter s, NoValues)])"
proof -
  let ?data = "mid (m_dataBlock s) (m_dataPos s) (m_length desc - s_HeaderOffset)"
  from decodeFields_skip [OF pre, of desc "CHR ''f'' # post" 0 "[]"] obtain acc' where
    "decodeFields desc (m_format desc) 0 ?data []
       = decodeFields desc (CHR ''f'' # post) (0 + length pre) st' acc'"
    unfolding fmt by blast
  then have d: "decodeFields desc (m_format desc) 0 ?data [] = ([], Some (CorruptElement (m_name desc)))"
    by (simp add: decodeField_NaN [OF nan])
  have p: "parseDataByDescriptor s desc =
           (True,
            s\<lparr>m_logLoadingState :=
                 corruptDataRead (m_MessageCounter s) (CorruptElement (m_name desc))
                   (m_logLoadingState s),
              m_dataBlock :=
                 remove0 (m_dataBlock s) (m_length desc + int (m_dataPos s) - s_HeaderOffset),
              m_dataPos := 0\<rparr>,
            [])"
    unfolding parseDataByDescriptor_enough [OF enough] d by simp
  have "\<exists>s'. parseDataRecord K s desc = Continue s'
             \<and> m_dataModel s' = m_dataModel s
             \<and> corruptData (m_logLoadingState s') =
                 corruptData (m_logLoadingState s)
                   @ [(m_MessageCounter s, CorruptElement (m_name desc)),
                      (m_MessageCounter s, NoValues)]"
    by (simp add: parseDataRecord_def p corruptDataRead_def)
  with p show ?thesis by blast
qed

theorem nan_record_discarded_witness:
  "parseDataRecord (declsWith 5) nanRecord byteFloat
     = Continue (nanRecord\<lparr>m_dataBlock := [CHR 0xA3, CHR 0x95, CHR 0x81, CHR 0x2A], m_dataPos := 0,
         m_logLoadingState := (m_logLoadingState nanRecord)
           \<lparr>corruptData := [(0, CorruptElement ''TEST''), (0, NoValues)]\<rparr>\<rparr>)"
proof -
  have e: "m_length byteFloat - s_HeaderOffset
      \<le> int (length (m_dataBlock nanRecord)) - int (m_dataPos nanRecord)"
    by (simp add: byteFloat_def nanRecord_def s_HeaderOffset_def)
  have f: "m_format byteFloat = ''B'' @ CHR ''f'' # []" by (simp add: byteFloat_def)
  have p: "skipFields ''B'' (mid (m_dataBlock nanRecord) (m_dataPos nanRecord)
      (m_length byteFloat - s_HeaderOffset)) = Some [CHR 0x00, CHR 0x00, CHR 0xC0, CHR 0x7F]"
    by (simp add: byteFloat_def nanRecord_def s_HeaderOffset_def mid_def decodeField_def
        readUnsigned_def)
  have n: "isNaN (fst (readUnsigned 4 [CHR 0x00, CHR 0x00, CHR 0xC0, CHR 0x7F]))"
    by (simp add: readUnsigned_def isNaN_def)
  from nan_record_discarded [OF e f p n, of "declsWith 5", THEN conjunct1]
  show ?thesis
    by (simp add: parseDataRecord_def corruptDataRead_def remove0_def s_HeaderOffset_def
        byteFloat_def nanRecord_def BinLogParser_init_def)
qed

text \<open>
  Claim C3 as stated fails in its count: for the record with the NaN the pass of the inner
  loop leaves two corrupt-data incidents in the status.
\<close>
theorem nan_record_two_incidents:
  "innerStep (declsWith 5) (nanRecord\<lparr>m_dataPos := 0\<rparr>)
     = Continue (nanRecord\<lparr>m_dataBlock := [CHR 0xA3, CHR 0x95, CHR 0x81, CHR 0x2A], m_dataPos := 0,
         m_logLoadingState := (m_logLoadingState nanRecord)
           \<lparr>corruptData := [(0, CorruptElement ''TEST''), (0, NoValues)]\<rparr>\<rparr>)
   \<and> length [(0 :: nat, CorruptElement ''TEST''), (0, NoValues)] \<noteq> 1"
  by (simp add: run_defs nanRecord_def byteFloat_def isNaN_def)

subsection \<open>The synthetic timestamp\<close>

lemma descriptorFinal_lacks:
  "descriptorFinal a d \<Longrightarrow> ts_name a \<notin> set (m_labels d) \<Longrightarrow> hasNoTimestamp d"
  by (auto simp: descriptorFinal_def hasNoTimestamp_def indexOf_None_iff [symmetric]
      split: if_splits)

lemma storeDescriptor_synthetic:
  assumes valid: "isValid K d" and new: "m_typeToDescriptorMap s (m_ID d) = None"
    and notFMT: "m_ID d \<noteq> s_FMTMessageType" and no: "hasNoTimestamp d"
    and accept: "fst (sinkAnswer (m_dataModel s))"
  shows "fst (storeDescriptor K s d)
       \<and> m_typeToDescriptorMap (snd (storeDescriptor K s d)) = (m_typeToDescriptorMap s)(m_ID d \<mapsto> d)
       \<and> addedTypes (m_dataModel (snd (storeDescriptor K s d))) =
           addedTypes (m_dataModel s)
             @ [(m_name d, m_ID d, m_length d + 8, CHR ''Q'' # m_format d,
                 ts_name (m_activeTimestamp s) # m_labels d)]"
proof -
  obtain m where a: "sinkAnswer (m_dataModel s) = (True, m)"
    using accept by (cases "sinkAnswer (m_dataModel s)") auto
  then have t: "addedTypes m = addedTypes (m_dataModel s)"
    using sinkAnswer_rows [of "m_dataModel s"] by simp
  show ?thesis
    using valid new notFMT no a t
    by (simp add: storeDescriptor_def Let_def addType_def addTimeStampField_def)
qed

lemma decoded_labels:
  assumes valid: "isValid K d" and notFMT: "m_ID d \<noteq> s_FMTMessageType"
    and p: "parseDataByDescriptor s1 d = (True, s2, nvl)"
  shows "length nvl \<le> length (m_format d) \<and> fst ` set nvl \<subseteq> set (m_labels d)"
proof (cases "nvl = []")
  case True
  then show ?thesis by simp
next
  case False
  from parseDataByDescriptor_labels [OF p False] labels_of_valid [OF valid notFMT]
  have l: "map fst nvl = m_labels d" by simp
  then have "length nvl = length (m_labels d)" by (metis length_map)
  moreover have "length (m_format d) = length (m_labels d)"
    using valid notFMT by (auto simp: isValid_def split: if_splits)
  moreover have "fst ` set nvl = set (m_labels d)" using l by (metis set_map)
  ultimately show ?thesis by simp
qed

lemma findNameIndex_bound:
  "findNameIndex l i = Some j \<Longrightarrow> j < i + length l"
proof (induction l arbitrary: i)
  case Nil
  then show ?case by simp
next
  case (Cons p ps)
  show ?case
  proof (cases "fst p = ''Name''")
    case True
    then show ?thesis using Cons.prems by simp
  next
    case False
    then have "findNameIndex ps (i + 1) = Some j" using Cons.prems by simp
    from Cons.IH [OF this] show ?thesis by simp
  qed
qed

lemma detectMavType_Some:
  assumes "l \<noteq> []"
  shows "\<exists>s'. detectMavType s l = Some s'"
proof -
  have "(case findNameIndex l 0 of Some i \<Rightarrow> i | None \<Rightarrow> 0) < length l"
    using assms findNameIndex_bound [of l 0] by (auto split: option.splits)
  then show ?thesis by (simp add: detectMavType_def Let_def)
qed

lemma storeNameValuePairList_emits:
  assumes no: "hasNoTimestamp d"
  shows "\<exists>s2. storeNameValuePairList K s1 nvl d =
           Some (fst (sinkAnswer (m_dataModel s1)), s2,
                 (ts_name (m_activeTimestamp s1), VUInt (m_lastValidTimeStamp s1)) # nvl)
       \<and> m_loadedLogType s2 = m_loadedLogType s1
       \<and> addedRows (m_dataModel s2) =
           addedRows (m_dataModel s1)
             @ (if fst (sinkAnswer (m_dataModel s1))
                then [(m_name d,
                       (ts_name (m_activeTimestamp s1), VUInt (m_lastValidTimeStamp s1)) # nvl,
                       ts_name (m_activeTimestamp s1))]
                else [])"
proof -
  let ?l = "(ts_name (m_activeTimestamp s1), VUInt (m_lastValidTimeStamp s1)) # nvl"
  let ?r = "(m_name d, ?l, ts_name (m_activeTimestamp s1))"
  obtain b m where ar: "addRow ?r (m_dataModel s1) = (b, m)" by (cases "addRow ?r (m_dataModel s1)")
  have b: "b = fst (sinkAnswer (m_dataModel s1))"
    using ar by (auto simp: addRow_def split: prod.splits bool.splits)
  note rows = addRow_rows(1) [OF ar]
  show ?thesis
  proof (cases b)
    case True
    then show ?thesis using no ar b rows
      by (simp add: storeNameValuePairList_def)
  next
    case False
    then show ?thesis using no ar b rows endTransaction_rows [of m]
      by (simp add: storeNameValuePairList_def)
  qed
qed

text \<open>
  Claim C6. Let a valid descriptor with a new id, not the one of FMT, be final for the
  active timestamp and lack its label, and let the sink accept. Then \<^verbatim>\<open>storeDescriptor\<close>
  enters the descriptor into the registry as it is, and hands the sink a copy with the
  label of the active timestamp in front of the labels, \<open>Q\<close> in front of the format and
  a length greater by 8. For this descriptor and any list of pairs,
  \<^verbatim>\<open>storeNameValuePairList\<close> puts the pair of the active label and the last valid
  timestamp in front of the list and hands the row to the sink; it returns what the sink
  answers, and the sink holds the row exactly when it accepted. A record of the descriptor
  with enough bytes behind the cursor is decoded by the descriptor of the registry: the
  bytes consumed are those of the original length, there are at most as many pairs as the
  original format has characters, and none of them bears the label of the timestamp. When
  pairs were decoded and the sink accepts, the pass of \<^verbatim>\<open>parse\<close> over the record goes on
  with one more row in the sink, the decoded pairs behind the pair of the timestamp; that
  row has exactly one field with the label of the timestamp.
\<close>
theorem synthetic_timestamp:
  assumes valid: "isValid K d" and new: "m_typeToDescriptorMap s (m_ID d) = None"
    and notFMT: "m_ID d \<noteq> s_FMTMessageType"
    and final: "descriptorFinal (m_activeTimestamp s) d"
    and lacks: "ts_name (m_activeTimestamp s) \<notin> set (m_labels d)"
    and accept: "fst (sinkAnswer (m_dataModel s))"
  shows "fst (storeDescriptor K s d)
       \<and> m_typeToDescriptorMap (snd (storeDescriptor K s d)) = (m_typeToDescriptorMap s)(m_ID d \<mapsto> d)
       \<and> addedTypes (m_dataModel (snd (storeDescriptor K s d))) =
           addedTypes (m_dataModel s)
             @ [(m_name d, m_ID d, m_length d + 8, CHR ''Q'' # m_format d,
                 ts_name (m_activeTimestamp s) # m_labels d)]
       \<and> (\<forall>s1 nvl. \<exists>s2.
             storeNameValuePairList K s1 nvl d =
               Some (fst (sinkAnswer (m_dataModel s1)), s2,
                     (ts_name (m_activeTimestamp s1), VUInt (m_lastValidTimeStamp s1)) # nvl)
           \<and> addedRows (m_dataModel s2) =
               addedRows (m_dataModel s1)
                 @ (if fst (sinkAnswer (m_dataModel s1))
                    then [(m_name d,
                           (ts_name (m_activeTimestamp s1), VUInt (m_lastValidTimeStamp s1)) # nvl,
                           ts_name (m_activeTimestamp s1))]
                    else []))
       \<and> (\<forall>s1. m_activeTimestamp s1 = m_activeTimestamp s
               \<and> m_length d - s_HeaderOffset \<le> int (length (m_dataBlock s1)) - int (m_dataPos s1)
             \<longrightarrow>
             (\<exists>s2 nvl. parseDataByDescriptor s1 d = (True, s2, nvl)
               \<and> m_dataBlock s2 = drop (nat (m_length d + int (m_dataPos s1) - 3)) (m_dataBlock s1)
               \<and> length nvl \<le> length (m_format d)
               \<and> ts_name (m_activeTimestamp s) \<notin> fst ` set nvl
               \<and> (nvl \<noteq> [] \<and> fst (sinkAnswer (m_dataModel s1)) \<longrightarrow>
                    (\<exists>s3. parseDataRecord K s1 d = Continue s3
                      \<and> addedRows (m_dataModel s3) =
                          addedRows (m_dataModel s1)
                            @ [(m_name d,
                                (ts_name (m_activeTimestamp s), VUInt (m_lastValidTimeStamp s1)) # nvl,
                                ts_name (m_activeTimestamp s))]
                      \<and> length (filter (\<lambda>p. fst p = ts_name (m_activeTimestamp s))
                          ((ts_name (m_activeTimestamp s), VUInt (m_lastValidTimeStamp s1)) # nvl))
                          = 1))))"
proof -
  note no = descriptorFinal_lacks [OF final lacks]
  note A = storeDescriptor_synthetic [OF valid new notFMT no accept]
  have B: "\<exists>s2. storeNameValuePairList K s1 nvl d =
               Some (fst (sinkAnswer (m_dataModel s1)), s2,
                     (ts_name (m_activeTimestamp s1), VUInt (m_lastValidTimeStamp s1)) # nvl)
           \<and> addedRows (m_dataModel s2) =
               addedRows (m_dataModel s1)
                 @ (if fst (sinkAnswer (m_dataModel s1))
                    then [(m_name d,
                           (ts_name (m_activeTimestamp s1), VUInt (m_lastValidTimeStamp s1)) # nvl,
                           ts_name (m_activeTimestamp s1))]
                    else [])" for s1 nvl
    using storeNameValuePairList_emits [OF no, of K s1 nvl] by blast
  have C: "\<exists>s2 nvl. parseDataByDescriptor s1 d = (True, s2, nvl)
               \<and> m_dataBlock s2 = drop (nat (m_length d + int (m_dataPos s1) - 3)) (m_dataBlock s1)
               \<and> length nvl \<le> length (m_format d)
               \<and> ts_name (m_activeTimestamp s) \<notin> fst ` set nvl
               \<and> (nvl \<noteq> [] \<and> fst (sinkAnswer (m_dataModel s1)) \<longrightarrow>
                    (\<exists>s3. parseDataRecord K s1 d = Continue s3
                      \<and> addedRows (m_dataModel s3) =
                          addedRows (m_dataModel s1)
                            @ [(m_name d,
                                (ts_name (m_activeTimestamp s), VUInt (m_lastValidTimeStamp s1)) # nvl,
                                ts_name (m_activeTimestamp s))]
                      \<and> length (filter (\<lambda>p. fst p = ts_name (m_activeTimestamp s))
                          ((ts_name (m_activeTimestamp s), VUInt (m_lastValidTimeStamp s1)) # nvl))
                          = 1))"
    if act: "m_activeTimestamp s1 = m_activeTimestamp s"
      and en: "m_length d - s_HeaderOffset \<le> int (length (m_dataBlock s1)) - int (m_dataPos s1)"
    for s1
  proof -
    obtain s2 nvl where p: "parseDataByDescriptor s1 d = (True, s2, nvl)"
      using parseDataByDescriptor_enough [OF en] by blast
    note fr = parseDataByDescriptor_frame [OF p]
    note tr = parseDataByDescriptor_True [OF p]
    note dl = decoded_labels [OF valid notFMT p]
    have n: "ts_name (m_activeTimestamp s) \<notin> fst ` set nvl" using dl lacks by auto
    then have f: "filter (\<lambda>p. fst p = ts_name (m_activeTimestamp s)) nvl = []"
      by (force simp: filter_empty_conv)
    have e: "\<exists>s3. parseDataRecord K s1 d = Continue s3
                      \<and> addedRows (m_dataModel s3) =
                          addedRows (m_dataModel s1)
                            @ [(m_name d,
                                (ts_name (m_activeTimestamp s), VUInt (m_lastValidTimeStamp s1)) # nvl,
                                ts_name (m_activeTimestamp s))]
                      \<and> length (filter (\<lambda>p. fst p = ts_name (m_activeTimestamp s))
                          ((ts_name (m_activeTimestamp s), VUInt (m_lastValidTimeStamp s1)) # nvl))
                          = 1"
      if ne: "nvl \<noteq> []" and acc: "fst (sinkAnswer (m_dataModel s1))"
    proof -
      let ?l = "(ts_name (m_activeTimestamp s), VUInt (m_lastValidTimeStamp s1)) # nvl"
      from storeNameValuePairList_emits [OF no, of K s2 nvl] fr act acc
      obtain s3 where st: "storeNameValuePairList K s2 nvl d = Some (True, s3, ?l)"
        and ty: "m_loadedLogType s3 = m_loadedLogType s2"
        and rows: "addedRows (m_dataModel s3) =
            addedRows (m_dataModel s1) @ [(m_name d, ?l, ts_name (m_activeTimestamp s))]"
        by auto
      have len: "length nvl \<ge> 1" using ne by (cases nvl) auto
      show ?thesis
      proof (cases "m_loadedLogType s3 = MAV_TYPE_GENERIC \<and> m_name d = ''PARM''")
        case True
        obtain s4 where dm: "detectMavType s3 ?l = Some s4"
          using detectMavType_Some [of ?l s3] by auto
        from detectMavType_frame [OF dm] have "m_dataModel s4 = m_dataModel s3" by simp
        moreover have "parseDataRecord K s1 d = Continue s4"
          using p len st True dm by (simp add: parseDataRecord_def)
        ultimately show ?thesis using rows f by simp
      next
        case False
        have "parseDataRecord K s1 d = Continue s3"
          using p len st False by (auto simp: parseDataRecord_def)
        then show ?thesis using rows f by simp
      qed
    qed
    from p tr dl n e show ?thesis by blast
  qed
  from A B C show ?thesis by blast
qed

lemma ping_decoded:
  "parseDataByDescriptor pingRecord pingDescriptor
     = (True, pingRecord\<lparr>m_dataBlock := [], m_dataPos := 0\<rparr>, [(''SEQ'', VUInt 7)])"
  by (simp add: parseDataByDescriptor_def pingDescriptor_def pingRecord_def s_HeaderOffset_def
      mid_def decodeField_def readUnsigned_def remove0_def getLabelAtIndex_def
      BinLogParser_init_def Let_def)

text \<open>The PING descriptor and a PING record: the sink is told of the type with
  \<open>TimeUS\<close> and \<open>Q\<close> in front and the length 12, the record is decoded by the original
  descriptor into the one pair of SEQ, and the row that reaches the sink has the pair of
  TimeUS in front.\<close>
theorem synthetic_timestamp_witness:
  "fst (storeDescriptor (declsWith 5) pingRecord pingDescriptor)
   \<and> m_typeToDescriptorMap (snd (storeDescriptor (declsWith 5) pingRecord pingDescriptor)) (CHR 0x82)
       = Some pingDescriptor
   \<and> addedTypes (m_dataModel (snd (storeDescriptor (declsWith 5) pingRecord pingDescriptor)))
       = [(''PING'', CHR 0x82, 12, ''QB'', [''TimeUS'', ''SEQ''])]
   \<and> parseDataByDescriptor pingRecord pingDescriptor
       = (True, pingRecord\<lparr>m_dataBlock := [], m_dataPos := 0\<rparr>, [(''SEQ'', VUInt 7)])
   \<and> (case parseDataRecord (declsWith 5) pingRecord pingDescriptor of
         Continue s3 \<Rightarrow> addedRows (m_dataModel s3)
       | Break s3 \<Rightarrow> [] | Return s3 \<Rightarrow> [] | OutOfRange \<Rightarrow> [])
       = [(''PING'', [(''TimeUS'', VUInt 1000000), (''SEQ'', VUInt 7)], ''TimeUS'')]
   \<and> length (filter (\<lambda>p. fst p = ''TimeUS'')
        (case parseDataRecord (declsWith 5) pingRecord pingDescriptor of
           Continue s3 \<Rightarrow> fst (snd (last (addedRows (m_dataModel s3))))
         | Break s3 \<Rightarrow> [] | Return s3 \<Rightarrow> [] | OutOfRange \<Rightarrow> [])) = 1"
proof -
  have v: "isValid (declsWith 5) pingDescriptor"
    by (simp add: isValid_def pingDescriptor_def declsWith_def s_FMTMessageType_def)
  have n: "m_typeToDescriptorMap pingRecord (m_ID pingDescriptor) = None"
    by (simp add: pingRecord_def BinLogParser_init_def)
  have f: "m_ID pingDescriptor \<noteq> s_FMTMessageType"
    by (simp add: pingDescriptor_def s_FMTMessageType_def)
  have d: "descriptorFinal (m_activeTimestamp pingRecord) pingDescriptor"
    by (simp add: descriptorFinal_def pingDescriptor_def pingRecord_def)
  have l: "ts_name (m_activeTimestamp pingRecord) \<notin> set (m_labels pingDescriptor)"
    by (simp add: pingDescriptor_def pingRecord_def)
  have a: "fst (sinkAnswer (m_dataModel pingRecord))"
    by (simp add: sinkAnswer_def pingRecord_def BinLogParser_init_def freshModel_def)
  have e: "m_activeTimestamp pingRecord = m_activeTimestamp pingRecord
      \<and> m_length pingDescriptor - s_HeaderOffset
          \<le> int (length (m_dataBlock pingRecord)) - int (m_dataPos pingRecord)"
    by (simp add: pingDescriptor_def pingRecord_def s_HeaderOffset_def)
  note t = synthetic_timestamp [OF v n f d l a]
  from t have 1: "fst (storeDescriptor (declsWith 5) pingRecord pingDescriptor)" by blast
  from t have "m_typeToDescriptorMap (snd (storeDescriptor (declsWith 5) pingRecord pingDescriptor))
      = (m_typeToDescriptorMap pingRecord)(m_ID pingDescriptor \<mapsto> pingDescriptor)" by blast
  then have 2: "m_typeToDescriptorMap (snd (storeDescriptor (declsWith 5) pingRecord pingDescriptor))
      (CHR 0x82) = Some pingDescriptor" by (simp add: pingDescriptor_def)
  from t have "addedTypes (m_dataModel (snd (storeDescriptor (declsWith 5) pingRecord pingDescriptor)))
      = addedTypes (m_dataModel pingRecord)
          @ [(m_name pingDescriptor, m_ID pingDescriptor, m_length pingDescriptor + 8,
              CHR ''Q'' # m_format pingDescriptor,
              ts_name (m_activeTimestamp pingRecord) # m_labels pingDescriptor)]" by blast
  then have 3: "addedTypes (m_dataModel (snd (storeDescriptor (declsWith 5) pingRecord pingDescriptor)))
       = [(''PING'', CHR 0x82, 12, ''QB'', [''TimeUS'', ''SEQ''])]"
    by (simp add: pingDescriptor_def pingRecord_def BinLogParser_init_def freshModel_def)
  from t [THEN conjunct2, THEN conjunct2, THEN conjunct2, THEN conjunct2, rule_format, OF e]
  obtain s2 nvl where p: "parseDataByDescriptor pingRecord pingDescriptor = (True, s2, nvl)"
    and r: "nvl \<noteq> [] \<and> fst (sinkAnswer (m_dataModel pingRecord)) \<longrightarrow>
       (\<exists>s3. parseDataRecord (declsWith 5) pingRecord pingDescriptor = Continue s3
          \<and> addedRows (m_dataModel s3) =
              addedRows (m_dataModel pingRecord)
                @ [(m_name pingDescriptor,
                    (ts_name (m_activeTimestamp pingRecord),
                     VUInt (m_lastValidTimeStamp pingRecord)) # nvl,
                    ts_name (m_activeTimestamp pingRecord))]
          \<and> length (filter (\<lambda>p. fst p = ts_name (m_activeTimestamp pingRecord))
              ((ts_name (m_activeTimestamp pingRecord),
                VUInt (m_lastValidTimeStamp pingRecord)) # nvl)) = 1)"
    by blast
  from p have nvl: "nvl = [(''SEQ'', VUInt 7)]"
    and 4: "parseDataByDescriptor pingRecord pingDescriptor
       = (True, pingRecord\<lparr>m_dataBlock := [], m_dataPos := 0\<rparr>, [(''SEQ'', VUInt 7)])"
    by (simp_all add: ping_decoded)
  from r a nvl obtain s3 where
    c: "parseDataRecord (declsWith 5) pingRecord pingDescriptor = Continue s3"
    and rows: "addedRows (m_dataModel s3) =
              addedRows (m_dataModel pingRecord)
                @ [(m_name pingDescriptor,
                    (ts_name (m_activeTimestamp pingRecord),
                     VUInt (m_lastValidTimeStamp pingRecord)) # [(''SEQ'', VUInt 7)],
                    ts_name (m_activeTimestamp pingRecord))]"
    by auto
  have rows': "addedRows (m_dataModel s3)
      = [(''PING'', [(''TimeUS'', VUInt 1000000), (''SEQ'', VUInt 7)], ''TimeUS'')]"
    using rows by (simp add: pingRecord_def pingDescriptor_def BinLogParser_init_def freshModel_def)
  have 5: "(case parseDataRecord (declsWith 5) pingRecord pingDescriptor of
         Continue s3 \<Rightarrow> addedRows (m_dataModel s3)
       | Break s3 \<Rightarrow> [] | Return s3 \<Rightarrow> [] | OutOfRange \<Rightarrow> [])
       = [(''PING'', [(''TimeUS'', VUInt 1000000), (''SEQ'', VUInt 7)], ''TimeUS'')]"
    by (simp add: c rows')
  have 6: "length (filter (\<lambda>p. fst p = ''TimeUS'')
        (case parseDataRecord (declsWith 5) pingRecord pingDescriptor of
           Continue s3 \<Rightarrow> fst (snd (last (addedRows (m_dataModel s3))))
         | Break s3 \<Rightarrow> [] | Return s3 \<Rightarrow> [] | OutOfRange \<Rightarrow> [])) = 1"
    unfolding c using rows' by simp
  from 1 2 3 4 5 6 show ?thesis by blast
qed

subsection \<open>The deferred descriptors\<close>

lemma storeDescriptor_queue:
  "storeDescriptor K (s\<lparr>m_descriptorForDeferredStorage := q\<rparr>) d =
     (case storeDescriptor K s d of
        (b, s') \<Rightarrow> (b, s'\<lparr>m_descriptorForDeferredStorage := q\<rparr>))"
  by (simp add: storeDescriptor_def Let_def split: prod.splits bool.splits)

lemma storeDeferred_append:
  "storeDeferred K (ds @ [d]) rc s =
     (case storeDeferred K ds rc s of
        (rc1, s1) \<Rightarrow> (case storeDescriptor K s1 d of (b, s2) \<Rightarrow> (rc1 \<and> b, s2)))"
  by (induction ds arbitrary: rc s) (auto split: prod.splits)

lemma storeDescriptor_types:
  assumes "storeDescriptor K s d = (True, s')"
  shows "addedTypes (m_dataModel s') =
           addedTypes (m_dataModel s)
             @ (if isValid K d \<and> m_typeToDescriptorMap s (m_ID d) = None
                   \<and> m_ID d \<noteq> s_FMTMessageType
                then [sinkTypeOf (m_activeTimestamp s) d] else [])"
  using assms
  by (auto simp: storeDescriptor_def sinkTypeOf_def Let_def
      split: if_splits prod.splits bool.splits dest: addType_rows(2))

lemma storeDescriptor_errors:
  assumes "storeDescriptor K s d = (b, s')"
  shows "errorReports (m_callbackObject s') =
           errorReports (m_callbackObject s) + (if b then 0 else 1)"
  using assms
  by (auto simp: storeDescriptor_def onError_def Let_def
      split: if_splits prod.splits bool.splits)

lemma storeDeferred_errors:
  "storeDeferred K ds rc s = (b, s') \<Longrightarrow>
     errorReports (m_callbackObject s) \<le> errorReports (m_callbackObject s')
   \<and> (b \<longleftrightarrow> rc \<and> errorReports (m_callbackObject s') = errorReports (m_callbackObject s))"
proof (induction ds arbitrary: rc s)
  case Nil
  then show ?case by auto
next
  case (Cons d ds)
  obtain b1 s1 where s1: "storeDescriptor K s d = (b1, s1)" by (cases "storeDescriptor K s d")
  with Cons.prems have run: "storeDeferred K ds (rc \<and> b1) s1 = (b, s')" by simp
  from Cons.IH [OF run] storeDescriptor_errors [OF s1] show ?case
    by (cases b1) auto
qed

lemma storeDeferred_types:
  "storeDeferred K ds True s = (True, s') \<Longrightarrow>
     addedTypes (m_dataModel s') =
       addedTypes (m_dataModel s)
         @ map (sinkTypeOf (m_activeTimestamp s))
             (filter (\<lambda>x. m_ID x \<noteq> s_FMTMessageType) (newcomers K (m_typeToDescriptorMap s) ds))"
proof (induction ds arbitrary: s)
  case Nil
  then show ?case by simp
next
  case (Cons d ds)
  obtain b1 s1 where s1: "storeDescriptor K s d = (b1, s1)" by (cases "storeDescriptor K s d")
  with Cons.prems have run: "storeDeferred K ds b1 s1 = (True, s')" by simp
  from storeDeferred_errors [OF run] have b1: "b1" by simp
  note t = storeDescriptor_types [OF s1 [unfolded eqTrueI [OF b1]]]
  note r = storeDescriptor_registry [OF s1]
  have a: "m_activeTimestamp s1 = m_activeTimestamp s" using storeDescriptor_frame [OF s1] by simp
  note ih = Cons.IH [OF run [unfolded eqTrueI [OF b1]]]
  show ?case
  proof (cases "isValid K d \<and> m_typeToDescriptorMap s (m_ID d) = None")
    case True
    with r have m1: "m_typeToDescriptorMap s1 = (m_typeToDescriptorMap s)(m_ID d \<mapsto> d)" by simp
    note ih' = ih [unfolded m1 a]
    from True t have t': "addedTypes (m_dataModel s1) =
        addedTypes (m_dataModel s)
          @ (if m_ID d \<noteq> s_FMTMessageType then [sinkTypeOf (m_activeTimestamp s) d] else [])"
      by simp
    show ?thesis
      unfolding ih' t' using True by (simp del: fun_upd_apply)
  next
    case False
    with ih t r a show ?thesis by auto
  qed
qed

lemma extendedStoreDescriptor_cases:
  assumes "extendedStoreDescriptor K s d = (rc, s')"
  shows "(rc, s'\<lparr>m_descriptorForDeferredStorage := m_descriptorForDeferredStorage s\<rparr>)
           = storeDeferred K (m_descriptorForDeferredStorage s @ [d]) True s
         \<or> \<not> rc"
proof -
  obtain rc1 s1 where s1: "storeDeferred K (m_descriptorForDeferredStorage s) True s = (rc1, s1)"
    by (cases "storeDeferred K (m_descriptorForDeferredStorage s) True s")
  note q = storeDeferred_frame [OF s1]
  show ?thesis
  proof (cases rc1)
    case False
    with assms s1 show ?thesis by (simp add: extendedStoreDescriptor_def)
  next
    case True
    obtain b s2 where s2: "storeDescriptor K s1 d = (b, s2)" by (cases "storeDescriptor K s1 d")
    note q2 = storeDescriptor_frame [OF s2]
    from assms s1 True s2 have "rc = b" "s' = s2\<lparr>m_descriptorForDeferredStorage := []\<rparr>"
      by (simp_all add: extendedStoreDescriptor_def storeDescriptor_queue)
    moreover have "s2\<lparr>m_descriptorForDeferredStorage := m_descriptorForDeferredStorage s\<rparr> = s2"
      using q q2 by simp
    ultimately show ?thesis using s1 True s2 by (simp add: storeDeferred_append)
  qed
qed

lemma finalize_id:
  "ts_name t \<notin> set (m_labels q) \<Longrightarrow> finalize t q = q"
  by (simp add: finalize_def indexOf_None_iff [symmetric] del: indexOf_None_iff split: option.splits)

lemma secondFMT_parsed:
  "parseFMTMessage secondFMT typeDescriptor_init
     = Some (True, secondFMT\<lparr>m_dataBlock := [], m_dataPos := 0\<rparr>, pingDescriptor)"
  by (simp add: parseFMTMessage_def secondFMT_def fmtPING_def pingDescriptor_def byteAt_def
      mid_def remove0_def toQString_def typeDescriptor_init_def BinLogParser_init_def
      s_HeaderOffset_def s_FMTNameSize_def s_FMTFormatSize_def s_FMTLabelsSize_def Let_def)

lemma secondFMT_flush:
  "extendedStoreDescriptor (declsWith 5) (secondFMT\<lparr>m_dataBlock := [], m_dataPos := 0\<rparr>)
       pingDescriptor
     = (True, secondFMT\<lparr>m_dataBlock := [], m_dataPos := 0,
          m_typeToDescriptorMap := [CHR 0x81 \<mapsto> testDescriptor, CHR 0x82 \<mapsto> pingDescriptor],
          m_dataModel := freshModel\<lparr>addedTypes :=
            [(''TEST'', CHR 0x81, 12, ''BQ'', [''X'', ''TimeUS'']),
             (''PING'', CHR 0x82, 12, ''QB'', [''TimeUS'', ''SEQ''])]\<rparr>,
          m_MessageCounter := 2,
          m_descriptorForDeferredStorage := []\<rparr>)"
  by (simp add: extendedStoreDescriptor_def storeDescriptor_def secondFMT_def pingDescriptor_def
      testDescriptor_def isValid_def hasNoTimestamp_def addTimeStampField_def addType_def
      sinkAnswer_def freshModel_def BinLogParser_init_def declsWith_def s_FMTMessageType_def
      Let_def)

text \<open>
  Claim C2, as amended. When no timestamp is active and \<open>t\<close> is the first candidate whose
  name is among the labels of a parsed descriptor, \<^verbatim>\<open>checkForValidTimestamp\<close> makes \<open>t\<close>
  the active timestamp, finalizes the descriptor against it and appends it to the deferred
  queue: nothing is submitted at that moment. The descriptors already in the queue are not
  touched, and finalizing them against \<open>t\<close> would not change them. The queue is flushed by
  \<^verbatim>\<open>extendedStoreDescriptor\<close>, which \<^verbatim>\<open>parse\<close> calls for the next format message parsed
  while a timestamp is active: the queued descriptors are submitted in arrival order, the
  queue is cleared, and, when all of them were stored, the descriptor of that format
  message is submitted last. The call returns false exactly when it reported an error to
  the callback, and \<^verbatim>\<open>parse\<close> then returns.
\<close>
theorem deferred_flush:
  "(\<not> ts_valid (m_activeTimestamp s)
      \<and> firstTimestampIn (m_possibleTimestamps s) (m_labels d) = Some t \<and> ts_valid t \<longrightarrow>
      checkForValidTimestamp s d =
        s\<lparr>m_activeTimestamp := t,
          m_descriptorForDeferredStorage := m_descriptorForDeferredStorage s @ [finalize t d]\<rparr>
    \<and> (parserOK n K s \<longrightarrow> (\<forall>q \<in> set (m_descriptorForDeferredStorage s). finalize t q = q)))
   \<and> (extendedStoreDescriptor K s d = (rc, s') \<longrightarrow>
        m_descriptorForDeferredStorage s' = []
      \<and> (rc \<longleftrightarrow> errorReports (m_callbackObject s') = errorReports (m_callbackObject s))
      \<and> (rc \<longrightarrow>
            s' = (snd (storeDeferred K (m_descriptorForDeferredStorage s @ [d]) True s))
                   \<lparr>m_descriptorForDeferredStorage := []\<rparr>
          \<and> addedTypes (m_dataModel s') =
              addedTypes (m_dataModel s)
                @ map (sinkTypeOf (m_activeTimestamp s))
                    (filter (\<lambda>x. m_ID x \<noteq> s_FMTMessageType)
                       (newcomers K (m_typeToDescriptorMap s)
                          (m_descriptorForDeferredStorage s @ [d])))))
   \<and> (parseFMTMessage s typeDescriptor_init = Some (True, s1, d1)
        \<and> ts_valid (m_activeTimestamp s1) \<longrightarrow>
        parseFMTRecord K s =
          (case extendedStoreDescriptor K s1
                  (finalize (m_activeTimestamp s1)
                     (if m_name d1 = ''GPS'' then replaceLabelName ''TimeMS'' ''GPSTimeMS'' d1
                      else d1)) of
             (False, s2) \<Rightarrow> Return s2
           | (True, s2) \<Rightarrow> Continue s2))"
proof (intro conjI impI)
  assume a: "\<not> ts_valid (m_activeTimestamp s)
      \<and> firstTimestampIn (m_possibleTimestamps s) (m_labels d) = Some t \<and> ts_valid t"
  then show "checkForValidTimestamp s d =
        s\<lparr>m_activeTimestamp := t,
          m_descriptorForDeferredStorage := m_descriptorForDeferredStorage s @ [finalize t d]\<rparr>"
    by (simp add: checkForValidTimestamp_def)
  assume ok: "parserOK n K s"
  from a firstTimestampIn_Some have "t \<in> set (m_possibleTimestamps s)" by blast
  with ok a show "\<forall>q \<in> set (m_descriptorForDeferredStorage s). finalize t q = q"
    by (auto simp: parserOK_def queueOK_def intro!: finalize_id)
next
  assume e: "extendedStoreDescriptor K s d = (rc, s')"
  from extendedStoreDescriptor_frame [OF e]
  show "m_descriptorForDeferredStorage s' = []" by simp
  obtain rc1 s1 where s1: "storeDeferred K (m_descriptorForDeferredStorage s) True s = (rc1, s1)"
    by (cases "storeDeferred K (m_descriptorForDeferredStorage s) True s")
  note e1 = storeDeferred_errors [OF s1]
  show "rc \<longleftrightarrow> errorReports (m_callbackObject s') = errorReports (m_callbackObject s)"
  proof (cases rc1)
    case False
    with e s1 have "rc = False" "s' = s1\<lparr>m_descriptorForDeferredStorage := []\<rparr>"
      by (simp_all add: extendedStoreDescriptor_def)
    with e1 False show ?thesis by auto
  next
    case True
    with e s1 have "storeDescriptor K (s1\<lparr>m_descriptorForDeferredStorage := []\<rparr>) d = (rc, s')"
      by (simp add: extendedStoreDescriptor_def)
    from storeDescriptor_errors [OF this] e1 True show ?thesis by auto
  qed
  assume rc: rc
  with extendedStoreDescriptor_cases [OF e]
  have eq: "storeDeferred K (m_descriptorForDeferredStorage s @ [d]) True s
      = (True, s'\<lparr>m_descriptorForDeferredStorage := m_descriptorForDeferredStorage s\<rparr>)"
    by simp
  show "s' = (snd (storeDeferred K (m_descriptorForDeferredStorage s @ [d]) True s))
                   \<lparr>m_descriptorForDeferredStorage := []\<rparr>"
    using extendedStoreDescriptor_frame [OF e] by (simp add: eq)
  from storeDeferred_types [OF eq]
  show "addedTypes (m_dataModel s') =
              addedTypes (m_dataModel s)
                @ map (sinkTypeOf (m_activeTimestamp s))
                    (filter (\<lambda>x. m_ID x \<noteq> s_FMTMessageType)
                       (newcomers K (m_typeToDescriptorMap s)
                          (m_descriptorForDeferredStorage s @ [d])))"
    by simp
next
  assume "parseFMTMessage s typeDescriptor_init = Some (True, s1, d1)
        \<and> ts_valid (m_activeTimestamp s1)"
  then show "parseFMTRecord K s =
          (case extendedStoreDescriptor K s1
                  (finalize (m_activeTimestamp s1)
                     (if m_name d1 = ''GPS'' then replaceLabelName ''TimeMS'' ''GPSTimeMS'' d1
                      else d1)) of
             (False, s2) \<Rightarrow> Return s2
           | (True, s2) \<Rightarrow> Continue s2)"
    by (simp add: parseFMTRecord_def Let_def)
qed

theorem deferred_flush_witness:
  "checkForValidTimestamp
      ((BinLogParser_init freshModel freshCallback [])
         \<lparr>m_descriptorForDeferredStorage := [pingDescriptor]\<rparr>)
      (testDescriptor\<lparr>m_hasTimeStamp := False, m_timeStampIndex := 0\<rparr>)
     = (BinLogParser_init freshModel freshCallback [])
         \<lparr>m_activeTimestamp := \<lparr>ts_name = ''TimeUS'', ts_divisor = 1000000\<rparr>,
          m_descriptorForDeferredStorage := [pingDescriptor, testDescriptor]\<rparr>
   \<and> finalize \<lparr>ts_name = ''TimeUS'', ts_divisor = 1000000\<rparr> pingDescriptor = pingDescriptor
   \<and> parseFMTRecord (declsWith 5) secondFMT
     = Continue (secondFMT\<lparr>m_dataBlock := [], m_dataPos := 0,
          m_typeToDescriptorMap := [CHR 0x81 \<mapsto> testDescriptor, CHR 0x82 \<mapsto> pingDescriptor],
          m_dataModel := freshModel\<lparr>addedTypes :=
            [(''TEST'', CHR 0x81, 12, ''BQ'', [''X'', ''TimeUS'']),
             (''PING'', CHR 0x82, 12, ''QB'', [''TimeUS'', ''SEQ''])]\<rparr>,
          m_MessageCounter := 2,
          m_descriptorForDeferredStorage := []\<rparr>)
   \<and> map (sinkTypeOf \<lparr>ts_name = ''TimeUS'', ts_divisor = 1000000\<rparr>)
         (filter (\<lambda>x. m_ID x \<noteq> s_FMTMessageType)
            (newcomers (declsWith 5) Map.empty [testDescriptor, pingDescriptor]))
     = [(''TEST'', CHR 0x81, 12, ''BQ'', [''X'', ''TimeUS'']),
        (''PING'', CHR 0x82, 12, ''QB'', [''TimeUS'', ''SEQ''])]"
proof -
  let ?s = "(BinLogParser_init freshModel freshCallback [])
         \<lparr>m_descriptorForDeferredStorage := [pingDescriptor]\<rparr>"
  let ?d = "testDescriptor\<lparr>m_hasTimeStamp := False, m_timeStampIndex := 0\<rparr>"
  let ?t = "\<lparr>ts_name = ''TimeUS'', ts_divisor = 1000000\<rparr>"
  have h: "\<not> ts_valid (m_activeTimestamp ?s)
      \<and> firstTimestampIn (m_possibleTimestamps ?s) (m_labels ?d) = Some ?t \<and> ts_valid ?t"
    by (simp add: BinLogParser_init_def ts_valid_def testDescriptor_def)
  have ok: "parserOK 0 (declsWith 5) ?s"
    by (simp add: parserOK_def candidatesOK_def registryOK_def queueOK_def rowsOK_def
        BinLogParser_init_def ts_valid_def pingDescriptor_def freshModel_def)
  note t1 = deferred_flush [where s = ?s and d = ?d and t = ?t and n = 0 and K = "declsWith 5",
      THEN conjunct1, rule_format, OF h]
  from t1 have 1: "checkForValidTimestamp ?s ?d
     = (BinLogParser_init freshModel freshCallback [])
         \<lparr>m_activeTimestamp := ?t,
          m_descriptorForDeferredStorage := [pingDescriptor, testDescriptor]\<rparr>"
    by (simp add: finalize_def testDescriptor_def)
  from t1 ok have 2: "finalize ?t pingDescriptor = pingDescriptor" by simp
  let ?s1 = "secondFMT\<lparr>m_dataBlock := [], m_dataPos := 0\<rparr>"
  have v: "parseFMTMessage secondFMT typeDescriptor_init = Some (True, ?s1, pingDescriptor)
      \<and> ts_valid (m_activeTimestamp ?s1)"
    by (simp add: secondFMT_parsed) (simp add: secondFMT_def ts_valid_def)
  have f: "finalize (m_activeTimestamp ?s1)
      (if m_name pingDescriptor = ''GPS''
       then replaceLabelName ''TimeMS'' ''GPSTimeMS'' pingDescriptor else pingDescriptor)
      = pingDescriptor"
    by (simp add: finalize_def pingDescriptor_def secondFMT_def)
  note t3 = deferred_flush [where s = secondFMT and K = "declsWith 5",
      THEN conjunct2, THEN conjunct2, rule_format, OF v]
  have 3: "parseFMTRecord (declsWith 5) secondFMT
     = Continue (secondFMT\<lparr>m_dataBlock := [], m_dataPos := 0,
          m_typeToDescriptorMap := [CHR 0x81 \<mapsto> testDescriptor, CHR 0x82 \<mapsto> pingDescriptor],
          m_dataModel := freshModel\<lparr>addedTypes :=
            [(''TEST'', CHR 0x81, 12, ''BQ'', [''X'', ''TimeUS'']),
             (''PING'', CHR 0x82, 12, ''QB'', [''TimeUS'', ''SEQ''])]\<rparr>,
          m_MessageCounter := 2,
          m_descriptorForDeferredStorage := []\<rparr>)"
    unfolding t3 f secondFMT_flush by simp
  note t2 = deferred_flush [where s = ?s1 and d = pingDescriptor and K = "declsWith 5",
      THEN conjunct2, THEN conjunct1, rule_format, OF secondFMT_flush]
  from t2 have "addedTypes (m_dataModel (secondFMT\<lparr>m_dataBlock := [], m_dataPos := 0,
          m_typeToDescriptorMap := [CHR 0x81 \<mapsto> testDescriptor, CHR 0x82 \<mapsto> pingDescriptor],
          m_dataModel := freshModel\<lparr>addedTypes :=
            [(''TEST'', CHR 0x81, 12, ''BQ'', [''X'', ''TimeUS'']),
             (''PING'', CHR 0x82, 12, ''QB'', [''TimeUS'', ''SEQ''])]\<rparr>,
          m_MessageCounter := 2,
          m_descriptorForDeferredStorage := []\<rparr>))
      = addedTypes (m_dataModel ?s1)
          @ map (sinkTypeOf (m_activeTimestamp ?s1))
              (filter (\<lambda>x. m_ID x \<noteq> s_FMTMessageType)
                 (newcomers (declsWith 5) (m_typeToDescriptorMap ?s1)
                    (m_descriptorForDeferredStorage ?s1 @ [pingDescriptor])))"
    by blast
  then have 4: "map (sinkTypeOf ?t)
         (filter (\<lambda>x. m_ID x \<noteq> s_FMTMessageType)
            (newcomers (declsWith 5) Map.empty [testDescriptor, pingDescriptor]))
     = [(''TEST'', CHR 0x81, 12, ''BQ'', [''X'', ''TimeUS'']),
        (''PING'', CHR 0x82, 12, ''QB'', [''TimeUS'', ''SEQ''])]"
    by (simp add: secondFMT_def BinLogParser_init_def freshModel_def)
  from 1 2 3 4 show ?thesis by blast
qed

text \<open>
  Claim C2 as stated fails in its moment of submission: after the pass of the inner loop
  over the discovering format message the descriptor is in the queue only, the registry
  and the sink hold nothing, and the record of that type that follows is counted as
  corrupt for want of a descriptor.
\<close>
theorem discovering_descriptor_not_submitted:
  "innerStep (declsWith 5) discoveringFMT
     = Continue (discoveringFMT
         \<lparr>m_dataBlock := [CHR 0xA3, CHR 0x95, CHR 0x81, CHR 0x2A,
            CHR 0x40, CHR 0x42, CHR 0x0F, CHR 0x00, CHR 0x00, CHR 0x00, CHR 0x00, CHR 0x00],
          m_dataPos := 0, m_messageType := CHR 0x80,
          m_activeTimestamp := \<lparr>ts_name = ''TimeUS'', ts_divisor = 1000000\<rparr>,
          m_descriptorForDeferredStorage := [testDescriptor]\<rparr>)
   \<and> m_typeToDescriptorMap discoveringFMT (CHR 0x81) = None
   \<and> addedTypes (m_dataModel discoveringFMT) = []
   \<and> innerStep (declsWith 5) (discoveringFMT
         \<lparr>m_dataBlock := [CHR 0xA3, CHR 0x95, CHR 0x81, CHR 0x2A,
            CHR 0x40, CHR 0x42, CHR 0x0F, CHR 0x00, CHR 0x00, CHR 0x00, CHR 0x00, CHR 0x00],
          m_dataPos := 0, m_messageType := CHR 0x80,
          m_activeTimestamp := \<lparr>ts_name = ''TimeUS'', ts_divisor = 1000000\<rparr>,
          m_descriptorForDeferredStorage := [testDescriptor]\<rparr>)
     = Continue (discoveringFMT
         \<lparr>m_dataBlock := [CHR 0xA3, CHR 0x95, CHR 0x81, CHR 0x2A,
            CHR 0x40, CHR 0x42, CHR 0x0F, CHR 0x00, CHR 0x00, CHR 0x00, CHR 0x00, CHR 0x00],
          m_dataPos := 3, m_messageType := CHR 0x81,
          m_activeTimestamp := \<lparr>ts_name = ''TimeUS'', ts_divisor = 1000000\<rparr>,
          m_descriptorForDeferredStorage := [testDescriptor],
          m_logLoadingState := (m_logLoadingState discoveringFMT)
            \<lparr>corruptData := [(0, NoDescriptor (CHR 0x81))]\<rparr>\<rparr>)"
  by (simp add: run_defs discoveringFMT_def fmtTEST_def testDescriptor_def)

end
